theory Spec2Isabelle
  imports Main "HOL-Library.Sublist"
begin

section \<open>Python strings\<close>

text \<open>
  A Python \<^verbatim>\<open>str\<close> is a sequence of Unicode code points, and the sources rely on it:
  the tag label is written in CJK characters, \<^verbatim>\<open>str.strip()\<close> and the regular
  expression class \<^verbatim>\<open>\s\<close> remove every Unicode white space character. A string is
  therefore modelled as the list of its code points. \<open>ascii\<close> turns an ASCII literal into
  such a list.
\<close>

type_synonym ustr = "nat list"

definition ascii :: "string \<Rightarrow> ustr" where
  "ascii s = map of_char s"

abbreviation NL :: nat where
  "NL \<equiv> 10"

text \<open>
  The characters for which \<^verbatim>\<open>str.isspace()\<close> holds; \<^verbatim>\<open>str.strip()\<close> without an
  argument and \<^verbatim>\<open>\s\<close> in a \<^verbatim>\<open>str\<close> pattern use the same table: U+0009..U+000D,
  U+001C..U+0020, U+0085, U+00A0, U+1680, U+2000..U+200A, U+2028, U+2029, U+202F, U+205F,
  U+3000.
\<close>

definition isspace :: "nat \<Rightarrow> bool" where
  "isspace c \<longleftrightarrow>
     (9 \<le> c \<and> c \<le> 13) \<or> (28 \<le> c \<and> c \<le> 32) \<or> c = 133 \<or> c = 160 \<or> c = 5760 \<or>
     (8192 \<le> c \<and> c \<le> 8202) \<or> c = 8232 \<or> c = 8233 \<or> c = 8239 \<or> c = 8287 \<or> c = 12288"

text \<open>\<^verbatim>\<open>s.lstrip(chars)\<close>, \<^verbatim>\<open>s.rstrip(chars)\<close>, \<^verbatim>\<open>s.strip(chars)\<close>, the character set given
  as a predicate.\<close>

definition lstrip_chars :: "(nat \<Rightarrow> bool) \<Rightarrow> ustr \<Rightarrow> ustr" where
  "lstrip_chars p s = dropWhile p s"

definition rstrip_chars :: "(nat \<Rightarrow> bool) \<Rightarrow> ustr \<Rightarrow> ustr" where
  "rstrip_chars p s = rev (dropWhile p (rev s))"

definition strip_chars :: "(nat \<Rightarrow> bool) \<Rightarrow> ustr \<Rightarrow> ustr" where
  "strip_chars p s = rstrip_chars p (lstrip_chars p s)"

definition rstrip :: "ustr \<Rightarrow> ustr" where
  "rstrip s = rstrip_chars isspace s"

definition strip :: "ustr \<Rightarrow> ustr" where
  "strip s = strip_chars isspace s"

text \<open>\<^verbatim>\<open>s.split(d)\<close> for a one-character delimiter: never empty, \<^verbatim>\<open>"".split("\n") == [""]\<close>.\<close>

fun split_where :: "('a \<Rightarrow> bool) \<Rightarrow> 'a list \<Rightarrow> 'a list list" where
  "split_where p [] = [[]]"
| "split_where p (c # cs) =
     (if p c then [] # split_where p cs
      else (case split_where p cs of [] \<Rightarrow> [[c]] | l # ls \<Rightarrow> (c # l) # ls))"

definition split_on :: "nat \<Rightarrow> ustr \<Rightarrow> ustr list" where
  "split_on d s = split_where (\<lambda>c. c = d) s"

text \<open>\<^verbatim>\<open>sep.join(parts)\<close>.\<close>

fun join :: "ustr \<Rightarrow> ustr list \<Rightarrow> ustr" where
  "join sep [] = []"
| "join sep [x] = x"
| "join sep (x # y # ys) = x @ sep @ join sep (y # ys)"

text \<open>\<^verbatim>\<open>str(n)\<close> for a natural number.\<close>

fun str_nat :: "nat \<Rightarrow> ustr" where
  "str_nat n = (if n < 10 then [48 + n] else str_nat (n div 10) @ [48 + n mod 10])"

declare str_nat.simps [simp del]

section \<open>The content vault: one file per post (share\_to\_social.py)\<close>

record SocialPost =
  sp_title :: ustr
  sp_brief :: ustr
  sp_twitter_cn :: ustr
  sp_linkedin_en :: ustr
  sp_youtube_shorts :: ustr
  sp_source_date :: ustr

text \<open>The characters of the class \<^verbatim>\<open>[\\/:*?"<>|]\<close>: backslash, slash, colon, asterisk,
  question mark, double quote, less, greater, bar.\<close>

definition unsafe_chars :: "nat list" where
  "unsafe_chars = [92, 47, 58, 42, 63, 34, 60, 62, 124]"

text \<open>
  \<^verbatim>\<open>slug = re.sub(r'[\\/:*?"<>|]', "-", title); return slug.strip(". ") or "untitled"\<close>
\<close>

definition safe_filename :: "ustr \<Rightarrow> ustr" where
  "safe_filename title =
     (let slug = map (\<lambda>c. if c \<in> set unsafe_chars then 45 else c) title;
          stripped = strip_chars (\<lambda>c. c = 46 \<or> c = 32) slug
      in if stripped = [] then ascii ''untitled'' else stripped)"

text \<open>
  A file of the vault is named by its month directory (\<^verbatim>\<open>post.source_date[:7]\<close>) and its
  file name \<^verbatim>\<open>f"{post.source_date}-{slug}.md"\<close> below \<^verbatim>\<open>manual_dir\<close>. Two such pairs
  are taken to be the same file exactly when they are equal, as they are when directory
  and file name are single path components.
\<close>

type_synonym vault_path = "ustr \<times> ustr"

definition post_path :: "SocialPost \<Rightarrow> vault_path" where
  "post_path post =
     (take 7 (sp_source_date post),
      sp_source_date post @ ascii ''-'' @ safe_filename (sp_title post) @ ascii ''.md'')"

definition post_text :: "SocialPost \<Rightarrow> ustr" where
  "post_text post =
     join [NL]
       ([ascii ''## '' @ sp_title post, []] @
        (if sp_brief post \<noteq> [] then [sp_brief post, []] else []) @
        [ascii ''---twitter-cn---'', sp_twitter_cn post, [],
         ascii ''---linkedin-en---'', sp_linkedin_en post, [],
         ascii ''---youtube-shorts---'', sp_youtube_shorts post, []])"

text \<open>The loop of \<^verbatim>\<open>save_to_content_vault\<close>: a post whose file exists is skipped, the
  others are written in order; the result is the list of written paths and the new file
  system.\<close>

fun save_to_content_vault ::
  "SocialPost list \<Rightarrow> (vault_path \<rightharpoonup> ustr) \<Rightarrow> vault_path list \<times> (vault_path \<rightharpoonup> ustr)" where
  "save_to_content_vault [] fs = ([], fs)"
| "save_to_content_vault (post # posts) fs =
     (if fs (post_path post) \<noteq> None then save_to_content_vault posts fs
      else (case save_to_content_vault posts (fs(post_path post \<mapsto> post_text post)) of
              (written, fs') \<Rightarrow> (post_path post # written, fs')))"

text \<open>
  The dates of the posts. \<^verbatim>\<open>_parse_social_posts\<close> takes the date of a post from the entry
  at its position, where the extractor has put a match of \<^verbatim>\<open>\d{4}-\d{2}-\d{2}\<close>, and
  otherwise from \<^verbatim>\<open>datetime.today().strftime("%Y-%m-%d")\<close>. The class \<^verbatim>\<open>\d\<close> holds the decimal digits of
  Unicode: the ASCII digits and characters outside ASCII. \<open>date_shaped\<close> holds of every
  such date.
\<close>

definition digit_like :: "nat \<Rightarrow> bool" where
  "digit_like c \<longleftrightarrow> (48 \<le> c \<and> c \<le> 57) \<or> 128 \<le> c"

definition date_shaped :: "ustr \<Rightarrow> bool" where
  "date_shaped d \<longleftrightarrow>
     length d = 10 \<and>
     list_all (\<lambda>(i, c). if i = 4 \<or> i = 7 then c = 45 else digit_like c) (enumerate 0 d)"

text \<open>A single path component that names an entry of its directory: not empty, neither
  \<^verbatim>\<open>.\<close> nor \<^verbatim>\<open>..\<close>, and without a slash or a backslash.\<close>

definition path_component :: "ustr \<Rightarrow> bool" where
  "path_component n \<longleftrightarrow>
     n \<noteq> [] \<and> n \<noteq> ascii ''.'' \<and> n \<noteq> ascii ''..'' \<and> 47 \<notin> set n \<and> 92 \<notin> set n"

section \<open>Exceptions\<close>

text \<open>\<^verbatim>\<open>raise SystemExit(message)\<close> ends the process; \<^verbatim>\<open>ValueError\<close> is what
  \<^verbatim>\<open>datetime.fromisoformat\<close> raises on a string that is not a date. A function that can
  raise returns \<open>exn + 'a\<close>.\<close>

datatype exn = SystemExit string | ValueError

section \<open>The remote refinement client\<close>

text \<open>
  The JSON body of a status 200 answer: the list of typed content blocks (a block of type
  \<^verbatim>\<open>"text"\<close> carries its text, as the service's interface says; \<^verbatim>\<open>data.get("content", [])\<close>
  reads a missing list as empty) and the stop reason. An answer is a status with its body,
  a time-out, or another \<^verbatim>\<open>requests.exceptions.RequestException\<close>.
\<close>

datatype block = TextBlock ustr | OtherBlock

record api_body =
  body_content :: "block list"
  stop_reason :: "ustr option"

datatype response = Http nat api_body | Timeout | RequestException

text \<open>
  The service is any function from the number of requests made so far and the user
  message to an answer, so the answers may change from one attempt to the next. The
  token budget and the prompt of the payload are not modelled: they reach the service
  only. The state of the network side is the number of requests posted and the delays
  passed to \<^verbatim>\<open>time.sleep\<close>, in order.
\<close>

type_synonym service = "nat \<Rightarrow> ustr \<Rightarrow> response"

record net =
  requests :: nat
  sleeps :: "nat list"

definition MAX_RETRIES :: nat where
  "MAX_RETRIES = 3"

definition RETRY_BASE_DELAY :: nat where
  "RETRY_BASE_DELAY = 2"

definition retryable :: "nat \<Rightarrow> bool" where
  "retryable status \<longleftrightarrow> status \<in> {429, 500, 502, 503, 529}"

text \<open>The answers after which the loop sleeps and goes on to the next attempt.\<close>

definition transient :: "response \<Rightarrow> bool" where
  "transient r \<longleftrightarrow>
     (case r of Http status data \<Rightarrow> retryable status | Timeout \<Rightarrow> True
      | RequestException \<Rightarrow> False)"

definition backoff :: "nat \<Rightarrow> nat" where
  "backoff attempt = RETRY_BASE_DELAY * 2 ^ attempt"

text \<open>\<^verbatim>\<open>"\n".join(b["text"] for b in data.get("content", []) if b.get("type") == "text")\<close>\<close>

definition text_blocks :: "api_body \<Rightarrow> ustr" where
  "text_blocks data =
     join [NL] (List.map_filter (\<lambda>b. case b of TextBlock t \<Rightarrow> Some t | OtherBlock \<Rightarrow> None)
                  (body_content data))"

definition posted :: "net \<Rightarrow> net" where
  "posted st = st\<lparr>requests := Suc (requests st)\<rparr>"

definition slept :: "nat \<Rightarrow> net \<Rightarrow> net" where
  "slept delay st = st\<lparr>sleeps := sleeps st @ [delay]\<rparr>"

text \<open>
  \<^verbatim>\<open>_call_claude\<close> of share\_pipeline.py, share\_to\_linkedin.py and share\_to\_social.py:
  the body of \<^verbatim>\<open>for attempt in range(MAX_RETRIES)\<close>, by recursion over the attempts left.
  Leaving the loop returns the empty string.
\<close>

fun call_claude_loop :: "service \<Rightarrow> ustr \<Rightarrow> nat list \<Rightarrow> net \<Rightarrow> ustr \<times> net" where
  "call_claude_loop svc msg [] st = ([], st)"
| "call_claude_loop svc msg (attempt # rest) st =
     (case svc (requests st) msg of
        Http status data \<Rightarrow>
          if status = 200 then (text_blocks data, posted st)
          else if retryable status then
            call_claude_loop svc msg rest (slept (backoff attempt) (posted st))
          else ([], posted st)
      | Timeout \<Rightarrow>
          call_claude_loop svc msg rest (slept (backoff attempt) (posted st))
      | RequestException \<Rightarrow> ([], posted st))"

definition call_claude :: "service \<Rightarrow> ustr \<Rightarrow> net \<Rightarrow> ustr \<times> net" where
  "call_claude svc msg st = call_claude_loop svc msg [0..<MAX_RETRIES] st"

text \<open>\<^verbatim>\<open>_call_claude_api\<close> of refine.py: the same loop, returning the text and whether the
  stop reason is \<^verbatim>\<open>"max_tokens"\<close>.\<close>

fun call_claude_api_loop ::
  "service \<Rightarrow> ustr \<Rightarrow> nat list \<Rightarrow> net \<Rightarrow> (ustr \<times> bool) \<times> net" where
  "call_claude_api_loop svc msg [] st = (([], False), st)"
| "call_claude_api_loop svc msg (attempt # rest) st =
     (case svc (requests st) msg of
        Http status data \<Rightarrow>
          if status = 200 then
            ((text_blocks data, stop_reason data = Some (ascii ''max_tokens'')), posted st)
          else if retryable status then
            call_claude_api_loop svc msg rest (slept (backoff attempt) (posted st))
          else (([], False), posted st)
      | Timeout \<Rightarrow>
          call_claude_api_loop svc msg rest (slept (backoff attempt) (posted st))
      | RequestException \<Rightarrow> (([], False), posted st))"

definition call_claude_api :: "service \<Rightarrow> ustr \<Rightarrow> net \<Rightarrow> (ustr \<times> bool) \<times> net" where
  "call_claude_api svc msg st = call_claude_api_loop svc msg [0..<MAX_RETRIES] st"

section \<open>Daily refinement (refine.py)\<close>

text \<open>\<^verbatim>\<open>_build_user_message(date, entries)\<close>, the entries being (time, content) pairs.\<close>

definition build_user_message :: "ustr \<Rightarrow> (ustr \<times> ustr) list \<Rightarrow> ustr" where
  "build_user_message date entries =
     join [NL]
       ((ascii ''# '' @ date @ [NL]) #
        concat (map (\<lambda>(time_str, content). [ascii ''## '' @ time_str @ [NL], strip content, []])
                  entries))"

text \<open>\<^verbatim>\<open>_write_output_md\<close>: the content written to \<^verbatim>\<open>OUTPUT_DIR / f"{date}.md"\<close>.\<close>

definition output_md :: "ustr \<Rightarrow> nat \<Rightarrow> ustr \<Rightarrow> ustr" where
  "output_md date entry_count refined_text =
     ascii ''---'' @ [NL] @ ascii ''date: '' @ date @ [NL] @ ascii ''type: daily-note'' @ [NL] @
     ascii ''entries: '' @ str_nat entry_count @ [NL] @ ascii ''---'' @ [NL, NL] @ refined_text"

definition truncated_marker :: ustr where
  "truncated_marker = [NL, NL] @ ascii ''[TRUNCATED]'' @ [NL]"

text \<open>
  The state of \<^verbatim>\<open>refine_all\<close>: its three counters, the files of \<^verbatim>\<open>OUTPUT_DIR\<close> (by date;
  the file of a date is \<^verbatim>\<open>{date}.md\<close>) and the network side. The groups are what
  \<^verbatim>\<open>group_transcripts_by_date\<close> returns, in the order of the dictionary.
  \<^verbatim>\<open>_check_shrinkage\<close> only prints and is left out.
\<close>

record refine_state =
  success :: nat
  skipped :: nat
  failed :: nat
  outputs :: "ustr \<rightharpoonup> ustr"
  rnet :: net

fun refine_loop ::
  "bool \<Rightarrow> bool \<Rightarrow> service \<Rightarrow> (ustr \<times> (ustr \<times> ustr) list) list \<Rightarrow> refine_state \<Rightarrow> refine_state"
  where
  "refine_loop force dry_run svc [] st = st"
| "refine_loop force dry_run svc ((date, entries) # groups) st =
     (if outputs st date \<noteq> None \<and> \<not> force then
        refine_loop force dry_run svc groups (st\<lparr>skipped := skipped st + 1\<rparr>)
      else if dry_run then
        refine_loop force dry_run svc groups (st\<lparr>skipped := skipped st + 1\<rparr>)
      else
        (case call_claude_api svc (build_user_message date entries) (rnet st) of
           ((refined, truncated), n) \<Rightarrow>
             if refined = [] then
               refine_loop force dry_run svc groups (st\<lparr>failed := failed st + 1, rnet := n\<rparr>)
             else
               refine_loop force dry_run svc groups
                 (st\<lparr>success := success st + 1,
                     outputs := (outputs st)
                       (date \<mapsto> output_md date (length entries)
                          (if truncated then refined @ truncated_marker else refined)),
                     rnet := n\<rparr>)))"

text \<open>\<^verbatim>\<open>refine_all(force, dry_run)\<close>; \<open>env_key\<close> is the value of \<^verbatim>\<open>ANTHROPIC_API_KEY\<close>
  (\<^verbatim>\<open>get_api_key\<close> exits when it is empty).\<close>

definition refine_all ::
  "bool \<Rightarrow> bool \<Rightarrow> ustr \<Rightarrow> service \<Rightarrow> (ustr \<times> (ustr \<times> ustr) list) list \<Rightarrow>
   (ustr \<rightharpoonup> ustr) \<Rightarrow> net \<Rightarrow> exn + refine_state" where
  "refine_all force dry_run env_key svc groups out n =
     (let st0 = \<lparr>success = 0, skipped = 0, failed = 0, outputs = out, rnet = n\<rparr>
      in if groups = [] then Inr st0
         else if \<not> dry_run \<and> env_key = [] then
           Inl (SystemExit ''ERROR: ANTHROPIC_API_KEY environment variable not set.'')
         else Inr (refine_loop force dry_run svc groups st0))"

section \<open>The share pipelines: refinement step\<close>

text \<open>
  \<^verbatim>\<open>refine_for_twitter(api_key, output_dir)\<close> of share\_pipeline.py and
  share\_to\_linkedin.py; \<^verbatim>\<open>generate_social_posts\<close> and \<^verbatim>\<open>prepare_linkedin_posts\<close> have the
  same shape with other file names. The output directory maps a file name to its content.
\<close>

definition refine_for_twitter ::
  "service \<Rightarrow> (string \<rightharpoonup> ustr) \<Rightarrow> net \<Rightarrow> exn + ((string \<rightharpoonup> ustr) \<times> net)" where
  "refine_for_twitter svc output_dir n =
     (case output_dir ''01_extracted.md'' of
        None \<Rightarrow> Inl (SystemExit ''ERROR: 01_extracted.md not found. Run extract step first.'')
      | Some user_message \<Rightarrow>
          (case call_claude svc user_message n of
             (refined, n') \<Rightarrow>
               if refined = [] then
                 Inl (SystemExit ''ERROR: Claude API returned empty response for refinement.'')
               else Inr (output_dir(''02_twitter.md'' \<mapsto> refined), n')))"

section \<open>The result parser (share\_pipeline.py)\<close>

record ShareEntry =
  se_title :: ustr
  se_body :: ustr
  se_source_file :: ustr
  se_source_date :: ustr

record RefinedEntry =
  re_title :: ustr
  re_content :: ustr
  re_source_date :: ustr

text \<open>
  A line that a pattern \<^verbatim>\<open>^MARK\s*$\<close> (with \<^verbatim>\<open>re.MULTILINE\<close>) can start a match at: the
  mark, then white space only. Such a match may run on over white space lines that follow
  (\<^verbatim>\<open>\s\<close> matches a newline), so the pieces of \<^verbatim>\<open>re.split\<close> differ from the groups of
  lines between the marked lines by white space at their ends only; every caller strips
  the pieces, and the model splits the list of lines.
\<close>

definition is_rule_line :: "ustr \<Rightarrow> ustr \<Rightarrow> bool" where
  "is_rule_line mark l \<longleftrightarrow>
     take (length mark) l = mark \<and> list_all isspace (drop (length mark) l)"

text \<open>\<^verbatim>\<open>[b.strip() for b in re.split(r"^===\s*$", text, flags=re.MULTILINE) if b.strip()]\<close>\<close>

definition split_blocks :: "ustr \<Rightarrow> ustr list" where
  "split_blocks text =
     filter (\<lambda>b. b \<noteq> [])
       (map (\<lambda>ls. strip (join [NL] ls))
          (split_where (is_rule_line (ascii ''==='')) (split_on NL text)))"

text \<open>\<^verbatim>\<open>re.match(r"## (.+)", s)\<close>: the group, which runs to the end of the first line and is
  not empty.\<close>

definition match_heading :: "ustr \<Rightarrow> ustr option" where
  "match_heading s =
     (let g = takeWhile (\<lambda>c. c \<noteq> NL) (drop 3 s)
      in if take 3 s = ascii ''## '' \<and> g \<noteq> [] then Some g else None)"

text \<open>
  The loop \<^verbatim>\<open>for i, block in enumerate(blocks)\<close> of \<^verbatim>\<open>_parse_refined_entries\<close>. \<open>today\<close> is
  \<^verbatim>\<open>datetime.today().strftime("%Y-%m-%d")\<close>. The second component lists the titles a
  warning was printed for.
\<close>

fun parse_refined_loop ::
  "ustr \<Rightarrow> ShareEntry list \<Rightarrow> nat \<Rightarrow> ustr list \<Rightarrow> RefinedEntry list \<times> ustr list" where
  "parse_refined_loop today source_entries i [] = ([], [])"
| "parse_refined_loop today source_entries i (block # blocks) =
     (case match_heading block of
        None \<Rightarrow> parse_refined_loop today source_entries (Suc i) blocks
      | Some g \<Rightarrow>
          (let title = strip g;
               content = strip (drop (3 + length g) block);
               source_date =
                 (if i < length source_entries then se_source_date (source_entries ! i) else [])
           in case parse_refined_loop today source_entries (Suc i) blocks of
                (refined, warnings) \<Rightarrow>
                  if source_date = [] then
                    (\<lparr>re_title = title, re_content = content, re_source_date = today\<rparr> # refined,
                     title # warnings)
                  else
                    (\<lparr>re_title = title, re_content = content, re_source_date = source_date\<rparr>
                       # refined,
                     warnings)))"

text \<open>The date the loop gives to the record of the block at position \<open>i\<close>.\<close>

definition dated :: "ustr \<Rightarrow> ShareEntry list \<Rightarrow> nat \<Rightarrow> ustr" where
  "dated today source_entries i =
     (let source_date =
        (if i < length source_entries then se_source_date (source_entries ! i) else [])
      in if source_date = [] then today else source_date)"

text \<open>\<^verbatim>\<open>_parse_refined_entries\<close>. \<open>output_dir\<close> gives, for the name of a file of the output
  directory, the text that \<^verbatim>\<open>read_text\<close> returns for it.\<close>

definition parse_refined_entries ::
  "ustr \<Rightarrow> (string \<rightharpoonup> ustr) \<Rightarrow> ShareEntry list \<Rightarrow> exn + (RefinedEntry list \<times> ustr list)" where
  "parse_refined_entries today output_dir source_entries =
     (case output_dir ''02_twitter.md'' of
        None \<Rightarrow> Inl (SystemExit ''ERROR: 02_twitter.md not found. Run refine step first.'')
      | Some text \<Rightarrow> Inr (parse_refined_loop today source_entries 0 (split_blocks text)))"

text \<open>
  What the statements say about the loop: the blocks that start with a heading, each with
  its position among all blocks; whether a position has no date (it overruns the entries,
  or the entry there has the empty date); the record made of a block at a position.
\<close>

definition headed :: "ustr list \<Rightarrow> (nat \<times> ustr) list" where
  "headed blocks = filter (\<lambda>(i, block). match_heading block \<noteq> None) (enumerate 0 blocks)"

definition undated :: "ShareEntry list \<Rightarrow> nat \<Rightarrow> bool" where
  "undated source_entries i \<longleftrightarrow>
     length source_entries \<le> i \<or> se_source_date (source_entries ! i) = []"

definition record_of :: "ustr \<Rightarrow> ShareEntry list \<Rightarrow> nat \<times> ustr \<Rightarrow> RefinedEntry" where
  "record_of today source_entries =
     (\<lambda>(i, block).
        \<lparr>re_title = strip (the (match_heading block)),
         re_content = strip (drop (3 + length (the (match_heading block))) block),
         re_source_date =
           (if undated source_entries i then today else se_source_date (source_entries ! i))\<rparr>)"

section \<open>The entry extractor (share\_pipeline.py, share\_to\_linkedin.py, share\_to\_social.py)\<close>

text \<open>
  The three pipelines carry their own copy of \<^verbatim>\<open>_parse_entries_from_file\<close>; the copies
  differ in the pattern of the tag search only.
\<close>

datatype pipeline = share_pipeline | share_to_linkedin | share_to_social

text \<open>
  Matching a pattern at the start of a string, one function for each construct the tag
  patterns use; the argument \<open>k\<close> matches the rest of the pattern. \<open>re_star p k\<close> is a
  starred character class (\<^verbatim>\<open>.\<close> without \<^verbatim>\<open>re.DOTALL\<close> is every character but the newline),
  \<open>re_search\<close> tries every start position as \<^verbatim>\<open>re.search\<close> does. Only whether a match
  exists is asked for, so the order in which a backtracking matcher tries the alternatives
  plays no role.
\<close>

definition re_lit :: "ustr \<Rightarrow> (ustr \<Rightarrow> bool) \<Rightarrow> ustr \<Rightarrow> bool" where
  "re_lit x k s \<longleftrightarrow> take (length x) s = x \<and> k (drop (length x) s)"

fun re_class :: "(nat \<Rightarrow> bool) \<Rightarrow> (ustr \<Rightarrow> bool) \<Rightarrow> ustr \<Rightarrow> bool" where
  "re_class p k [] \<longleftrightarrow> False"
| "re_class p k (c # cs) \<longleftrightarrow> p c \<and> k cs"

fun re_star :: "(nat \<Rightarrow> bool) \<Rightarrow> (ustr \<Rightarrow> bool) \<Rightarrow> ustr \<Rightarrow> bool" where
  "re_star p k [] \<longleftrightarrow> k []"
| "re_star p k (c # cs) \<longleftrightarrow> k (c # cs) \<or> (p c \<and> re_star p k cs)"

fun re_search :: "(ustr \<Rightarrow> bool) \<Rightarrow> ustr \<Rightarrow> bool" where
  "re_search m [] \<longleftrightarrow> m []"
| "re_search m (c # cs) \<longleftrightarrow> m (c # cs) \<or> re_search m cs"

text \<open>The label \<^verbatim>\<open>**\<close>U+6807 U+7B7E\<^verbatim>\<open>**\<close>, the full-width colon U+FF1A or the ASCII
  colon, and the marker.\<close>

definition tag_label :: ustr where
  "tag_label = [42, 42, 26631, 31614, 42, 42]"

definition is_colon :: "nat \<Rightarrow> bool" where
  "is_colon c \<longleftrightarrow> c = 65306 \<or> c = 58"

definition share_marker :: ustr where
  "share_marker = ascii ''#Share''"

text \<open>
  The tag search \<^verbatim>\<open>re.search(PATTERN, entry_text)\<close>. The pattern is the label, the class of
  the two colons, \<^verbatim>\<open>.*\<close> and \<^verbatim>\<open>#Share\<close> in share\_pipeline.py and share\_to\_social.py;
  share\_to\_linkedin.py has \<^verbatim>\<open>\s*\<close> in the place of \<^verbatim>\<open>.*\<close>.
\<close>

definition filler :: "pipeline \<Rightarrow> nat \<Rightarrow> bool" where
  "filler variant c \<longleftrightarrow> (if variant = share_to_linkedin then isspace c else c \<noteq> NL)"

definition has_share_tag :: "pipeline \<Rightarrow> ustr \<Rightarrow> bool" where
  "has_share_tag variant entry_text \<longleftrightarrow>
     re_search
       (re_lit tag_label (re_class is_colon (re_star (filler variant)
          (re_lit share_marker (\<lambda>rest. True)))))
       entry_text"

text \<open>
  The body of an entry: \<^verbatim>\<open>re.split(r"^---\s*$", entry_text, maxsplit=1, flags=re.MULTILINE)\<close>
  splits at the first line that holds \<^verbatim>\<open>---\<close> and white space only, and the second part
  is stripped; without such a line the first two lines are dropped.
\<close>

definition body_of :: "ustr \<Rightarrow> ustr" where
  "body_of entry_text =
     (case dropWhile (\<lambda>l. \<not> is_rule_line (ascii ''---'') l) (split_on NL entry_text) of
        [] \<Rightarrow> strip (join [NL] (drop 2 (split_on NL entry_text)))
      | rule # rest \<Rightarrow> strip (join [NL] rest))"

text \<open>The body of the loop \<^verbatim>\<open>for entry_text in entries_raw\<close>: the entry appended for one
  piece, if any.\<close>

definition parse_entry :: "pipeline \<Rightarrow> ustr \<Rightarrow> ustr \<Rightarrow> ustr \<Rightarrow> ShareEntry option" where
  "parse_entry variant source_file source_date raw =
     (let entry_text = strip raw
      in if take 3 entry_text \<noteq> ascii ''## '' then None
         else if \<not> has_share_tag variant entry_text then None
         else (case match_heading entry_text of
                 None \<Rightarrow> None
               | Some g \<Rightarrow>
                   (let body = body_of entry_text
                    in if body \<noteq> [] then
                         Some \<lparr>se_title = strip g, se_body = body,
                               se_source_file = source_file, se_source_date = source_date\<rparr>
                       else None)))"

text \<open>
  The lines after the YAML front matter: when the first line is \<^verbatim>\<open>---\<close>, the lines after
  the next such line; all lines when there is none.
\<close>

definition skip_front_matter :: "ustr list \<Rightarrow> ustr list" where
  "skip_front_matter lines =
     (case lines of
        [] \<Rightarrow> lines
      | first # others \<Rightarrow>
          if strip first = ascii ''---'' then
            (case dropWhile (\<lambda>line. strip line \<noteq> ascii ''---'') others of
               [] \<Rightarrow> lines
             | closing # content \<Rightarrow> content)
          else lines)"

text \<open>
  \<^verbatim>\<open>re.split(r"(?=^## )", content, flags=re.MULTILINE)\<close> cuts the content in front of every
  line that begins with \<^verbatim>\<open>"## "\<close>, also in front of the first line, which then gives an
  empty first piece. The pieces are kept as lists of lines; a piece of the source ends in
  the newline of its last line, which \<^verbatim>\<open>strip()\<close> removes at once.
\<close>

fun split_before :: "('a \<Rightarrow> bool) \<Rightarrow> 'a list \<Rightarrow> 'a list list" where
  "split_before p [] = [[]]"
| "split_before p (l # ls) =
     (case split_before p ls of
        [] \<Rightarrow> [[l]]
      | g # gs \<Rightarrow> if p l then [] # (l # g) # gs else (l # g) # gs)"

definition entries_raw :: "ustr \<Rightarrow> ustr list" where
  "entries_raw text =
     map (join [NL])
       (split_before (\<lambda>l. take 3 l = ascii ''## '')
          (skip_front_matter (split_on NL text)))"

text \<open>
  \<^verbatim>\<open>_parse_entries_from_file\<close>. \<open>source_file\<close> is the name of the file and \<open>text\<close> what is
  read from it; \<open>source_date\<close> is the date that the two searches (front matter, file name)
  find, or the empty string.
\<close>

definition parse_entries_from_file ::
  "pipeline \<Rightarrow> ustr \<Rightarrow> ustr \<Rightarrow> ustr \<Rightarrow> ShareEntry list" where
  "parse_entries_from_file variant source_file source_date text =
     List.map_filter (parse_entry variant source_file source_date) (entries_raw text)"

text \<open>
  What the statements below say about a stripped piece: the marker stands behind the label
  and a colon with no newline in between (on the line of the tag field, that is), or
  behind the label and a colon with white space only in between.
\<close>

definition marker_on_tag_line :: "ustr \<Rightarrow> bool" where
  "marker_on_tag_line s \<longleftrightarrow>
     (\<exists>a c v d. s = a @ tag_label @ c # v @ share_marker @ d \<and> is_colon c \<and> NL \<notin> set v)"

definition marker_follows_colon :: "ustr \<Rightarrow> bool" where
  "marker_follows_colon s \<longleftrightarrow>
     (\<exists>a c w d. s = a @ tag_label @ c # w @ share_marker @ d \<and> is_colon c \<and> list_all isspace w)"

text \<open>A piece with a heading text on its first line and a body that is not empty, and the
  entry made of such a piece.\<close>

definition extractable :: "ustr \<Rightarrow> bool" where
  "extractable raw \<longleftrightarrow> match_heading (strip raw) \<noteq> None \<and> body_of (strip raw) \<noteq> []"

definition entry_of :: "ustr \<Rightarrow> ustr \<Rightarrow> ustr \<Rightarrow> ShareEntry" where
  "entry_of source_file source_date raw =
     \<lparr>se_title = strip (the (match_heading (strip raw))), se_body = body_of (strip raw),
      se_source_file = source_file, se_source_date = source_date\<rparr>"

section \<open>ISO week labels\<close>

text \<open>
  \<^verbatim>\<open>_iso_week_label\<close> calls \<^verbatim>\<open>datetime.fromisoformat\<close> and \<^verbatim>\<open>isocalendar\<close> of the standard
  library. They are rendered here for the dates the pipeline produces, ten characters
  \<^verbatim>\<open>YYYY-MM-DD\<close> of a valid calendar day; on any other string the model raises
  \<^verbatim>\<open>ValueError\<close> (newer library versions read a few more ISO 8601 spellings). The merge
  step below takes the labelling function as a parameter, and its theorems hold for every
  labelling function; \<open>iso_week_label\<close> is the one used at sample inputs.
\<close>

definition digit :: "nat \<Rightarrow> int option" where
  "digit c = (if 48 \<le> c \<and> c \<le> 57 then Some (int c - 48) else None)"

fun number :: "int \<Rightarrow> ustr \<Rightarrow> int option" where
  "number acc [] = Some acc"
| "number acc (c # cs) = (case digit c of None \<Rightarrow> None | Some d \<Rightarrow> number (10 * acc + d) cs)"

definition is_leap :: "int \<Rightarrow> bool" where
  "is_leap y \<longleftrightarrow> y mod 4 = 0 \<and> (y mod 100 \<noteq> 0 \<or> y mod 400 = 0)"

definition days_in_month :: "int \<Rightarrow> int \<Rightarrow> int" where
  "days_in_month y m =
     (if m = 2 then (if is_leap y then 29 else 28)
      else if m = 4 \<or> m = 6 \<or> m = 9 \<or> m = 11 then 30 else 31)"

definition fromisoformat :: "ustr \<Rightarrow> (int \<times> int \<times> int) option" where
  "fromisoformat s =
     (if length s = 10 \<and> s ! 4 = 45 \<and> s ! 7 = 45 then
        (case (number 0 (take 4 s), number 0 (take 2 (drop 5 s)), number 0 (drop 8 s)) of
           (Some y, Some m, Some d) \<Rightarrow>
             if 1 \<le> y \<and> 1 \<le> m \<and> m \<le> 12 \<and> 1 \<le> d \<and> d \<le> days_in_month y m
             then Some (y, m, d) else None
         | _ \<Rightarrow> None)
      else None)"

definition days_before_year :: "int \<Rightarrow> int" where
  "days_before_year y = (y - 1) * 365 + (y - 1) div 4 - (y - 1) div 100 + (y - 1) div 400"

text \<open>\<^verbatim>\<open>_DAYS_BEFORE_MONTH[month] + (month > 2 and _is_leap(year))\<close>, for a month from 1 to
  12.\<close>

definition days_before_month :: "int \<Rightarrow> int \<Rightarrow> int" where
  "days_before_month y m =
     [0, 0, 31, 59, 90, 120, 151, 181, 212, 243, 273, 304, 334] ! nat m +
     (if m > 2 \<and> is_leap y then 1 else 0)"

definition ymd2ord :: "int \<Rightarrow> int \<Rightarrow> int \<Rightarrow> int" where
  "ymd2ord y m d = days_before_year y + days_before_month y m + d"

definition isoweek1monday :: "int \<Rightarrow> int" where
  "isoweek1monday y =
     (let firstday = ymd2ord y 1 1;
          firstweekday = (firstday + 6) mod 7;
          week1monday = firstday - firstweekday
      in if firstweekday > 3 then week1monday + 7 else week1monday)"

text \<open>The ISO year and week of \<^verbatim>\<open>isocalendar()\<close>.\<close>

definition isocalendar :: "int \<times> int \<times> int \<Rightarrow> int \<times> int" where
  "isocalendar date =
     (case date of (y, m, d) \<Rightarrow>
        let today = ymd2ord y m d;
            week = (today - isoweek1monday y) div 7
        in if week < 0 then (y - 1, (today - isoweek1monday (y - 1)) div 7 + 1)
           else if week \<ge> 52 \<and> today \<ge> isoweek1monday (y + 1) then (y + 1, 1)
           else (y, week + 1))"

text \<open>\<^verbatim>\<open>f"Week {iso.week} - {iso.year}"\<close>\<close>

definition iso_week_label :: "ustr \<Rightarrow> ustr option" where
  "iso_week_label date_str =
     (case fromisoformat date_str of
        None \<Rightarrow> None
      | Some date \<Rightarrow>
          (case isocalendar date of
             (year, week) \<Rightarrow>
               Some (ascii ''Week '' @ str_nat (nat week) @ ascii '' - '' @ str_nat (nat year))))"

section \<open>Merging into the weekly files (share\_pipeline.py)\<close>

text \<open>
  \<^verbatim>\<open>re.findall(r"^## (.+)$", existing_content, flags=re.MULTILINE)\<close>: a line matches when
  it starts with the heading mark and goes on; the group is the rest of the line. Lines
  end at \<^verbatim>\<open>\n\<close> only.
\<close>

definition heading_of_line :: "ustr \<Rightarrow> ustr option" where
  "heading_of_line l =
     (if take 3 l = ascii ''## '' \<and> drop 3 l \<noteq> [] then Some (drop 3 l) else None)"

definition findall_headings :: "ustr \<Rightarrow> ustr list" where
  "findall_headings s = List.map_filter heading_of_line (split_on NL s)"

text \<open>The heading lines of a text: all lines that begin with the heading mark, the line
  that holds the mark alone included.\<close>

definition heading_lines :: "ustr \<Rightarrow> ustr list" where
  "heading_lines s = filter (\<lambda>l. take 3 l = ascii ''## '') (split_on NL s)"

definition separator :: ustr where
  "separator = [NL, NL] @ ascii ''==='' @ [NL, NL]"

text \<open>
  The weekly files of \<^verbatim>\<open>vault_posts_dir\<close>, by week label (the file of a label is
  \<^verbatim>\<open>{week_label}.md\<close>). A file is kept as the string stored in it: what \<^verbatim>\<open>write_text\<close>
  was given (the line separator of the system being \<^verbatim>\<open>\n\<close>), or whatever an editor left
  there. The strings are text that UTF-8 encodes, as everything read from a file is.
\<close>

type_synonym vault = "ustr \<rightharpoonup> ustr"

text \<open>
  \<^verbatim>\<open>file_path.read_text(encoding="utf-8")\<close> opens the file in text mode with universal
  newlines: every \<^verbatim>\<open>\r\n\<close> and every other \<^verbatim>\<open>\r\<close> of the stored string is read as \<^verbatim>\<open>\n\<close>.
\<close>

fun read_text :: "ustr \<Rightarrow> ustr" where
  "read_text [] = []"
| "read_text [c] = [if c = 13 then NL else c]"
| "read_text (c # d # cs) =
     (if c = 13 then (if d = NL then NL # read_text cs else NL # read_text (d # cs))
      else c # read_text (d # cs))"

text \<open>\<^verbatim>\<open>week_groups[label].append(entry)\<close> on a dictionary that keeps the order in which
  its keys were first inserted.\<close>

fun add_to_group ::
  "ustr \<Rightarrow> RefinedEntry \<Rightarrow> (ustr \<times> RefinedEntry list) list \<Rightarrow> (ustr \<times> RefinedEntry list) list"
  where
  "add_to_group label entry [] = [(label, [entry])]"
| "add_to_group label entry ((k, es) # groups) =
     (if k = label then (k, es @ [entry]) # groups
      else (k, es) # add_to_group label entry groups)"

text \<open>The grouping loop; it raises where the labelling does, before anything is written.\<close>

fun group_by_week ::
  "(ustr \<Rightarrow> ustr option) \<Rightarrow> RefinedEntry list \<Rightarrow> (ustr \<times> RefinedEntry list) list \<Rightarrow>
   exn + (ustr \<times> RefinedEntry list) list" where
  "group_by_week week_label [] groups = Inr groups"
| "group_by_week week_label (entry # entries) groups =
     (case week_label (re_source_date entry) of
        None \<Rightarrow> Inl ValueError
      | Some label \<Rightarrow> group_by_week week_label entries (add_to_group label entry groups))"

text \<open>\<^verbatim>\<open>f"## {e.title}\n\n{e.content}"\<close>\<close>

definition entry_text :: "RefinedEntry \<Rightarrow> ustr" where
  "entry_text e = ascii ''## '' @ re_title e @ [NL, NL] @ re_content e"

text \<open>
  The body of the loop over the weeks, for one file, from the content read: the new
  content to write, or \<open>None\<close> when no entry is new and the file is left alone.
\<close>

definition merge_week :: "ustr \<Rightarrow> RefinedEntry list \<Rightarrow> ustr option" where
  "merge_week existing_content entries =
     (let existing_titles = set (findall_headings existing_content);
          new_entries = filter (\<lambda>e. re_title e \<notin> existing_titles) entries
      in if new_entries = [] then None
         else
           let parts = map entry_text new_entries;
               append_text = join separator parts
           in Some (if existing_content \<noteq> []
                    then rstrip existing_content @ separator @ append_text @ [NL]
                    else append_text @ [NL]))"

text \<open>
  The loop over the weeks. \<^verbatim>\<open>existing_content\<close> is the text read from the file when it
  exists and the empty string otherwise; the new content is stored as it is.
\<close>

fun merge_loop ::
  "(ustr \<times> RefinedEntry list) list \<Rightarrow> vault \<Rightarrow> ustr list \<times> vault" where
  "merge_loop [] fs = ([], fs)"
| "merge_loop ((week_label, entries) # groups) fs =
     (case merge_week (case fs week_label of None \<Rightarrow> [] | Some c \<Rightarrow> read_text c) entries of
        None \<Rightarrow> merge_loop groups fs
      | Some new_content \<Rightarrow>
          (case merge_loop groups (fs(week_label \<mapsto> new_content)) of
             (written, fs') \<Rightarrow> (week_label # written, fs')))"

text \<open>\<^verbatim>\<open>merge_to_shared_posts(refined_entries, vault_posts_dir)\<close>: the labels of the files
  written, in order, and the files afterwards.\<close>

definition merge_to_shared_posts ::
  "(ustr \<Rightarrow> ustr option) \<Rightarrow> RefinedEntry list \<Rightarrow> vault \<Rightarrow> exn + (ustr list \<times> vault)" where
  "merge_to_shared_posts week_label refined_entries fs =
     (case group_by_week week_label refined_entries [] of
        Inl e \<Rightarrow> Inl e
      | Inr week_groups \<Rightarrow> Inr (merge_loop week_groups fs))"

text \<open>
  Runs one after the other: the files after a run; a run that raises has written nothing.
\<close>

definition vault_after :: "(ustr \<Rightarrow> ustr option) \<Rightarrow> vault \<Rightarrow> RefinedEntry list \<Rightarrow> vault" where
  "vault_after week_label fs refined_entries =
     (case merge_to_shared_posts week_label refined_entries fs of
        Inl e \<Rightarrow> fs
      | Inr (written, fs') \<Rightarrow> fs')"

text \<open>
  The property of a weekly file that the runs keep, in terms of the text read from it: no
  two heading lines are equal, and \<^verbatim>\<open>rstrip\<close> (which the next run applies to the text)
  leaves the heading lines as they are.
\<close>

definition stable_text :: "ustr \<Rightarrow> bool" where
  "stable_text t \<longleftrightarrow>
     distinct (heading_lines t) \<and> heading_lines (rstrip t) = heading_lines t"

definition stable_file :: "ustr \<Rightarrow> bool" where
  "stable_file c \<longleftrightarrow> stable_text (read_text c)"

definition vault_ok :: "vault \<Rightarrow> bool" where
  "vault_ok fs \<longleftrightarrow> (\<forall>l c. fs l = Some c \<longrightarrow> stable_file c)"

text \<open>
  What \<^verbatim>\<open>_parse_refined_entries\<close> gives for the title and the content of a record (read
  in text mode, so without \<^verbatim>\<open>\r\<close>; the title of one line; both stripped) and what the
  merge step needs besides: the title is not empty, and no line of the content begins with
  the heading mark.
\<close>

definition clean_entry :: "RefinedEntry \<Rightarrow> bool" where
  "clean_entry e \<longleftrightarrow>
     re_title e \<noteq> [] \<and> NL \<notin> set (re_title e) \<and> 13 \<notin> set (re_title e) \<and>
     \<not> isspace (last (re_title e)) \<and>
     13 \<notin> set (re_content e) \<and>
     (re_content e = [] \<or> \<not> isspace (last (re_content e))) \<and>
     heading_lines (re_content e) = []"

text \<open>The entries of one run bound for the week \<open>l\<close>, in order.\<close>

definition bound_for ::
  "(ustr \<Rightarrow> ustr option) \<Rightarrow> ustr \<Rightarrow> RefinedEntry list \<Rightarrow> RefinedEntry list" where
  "bound_for week_label l entries = filter (\<lambda>e. week_label (re_source_date e) = Some l) entries"

definition run_ok :: "(ustr \<Rightarrow> ustr option) \<Rightarrow> RefinedEntry list \<Rightarrow> bool" where
  "run_ok week_label entries \<longleftrightarrow>
     list_all clean_entry entries \<and>
     (\<forall>l. distinct (map re_title (bound_for week_label l entries)))"

text \<open>What a run puts in front of the appended text, and the entries it appends, for the
  text read from the file.\<close>

definition kept :: "ustr \<Rightarrow> ustr" where
  "kept existing_content =
     (if existing_content \<noteq> [] then rstrip existing_content @ separator else [])"

definition new_entries :: "ustr \<Rightarrow> RefinedEntry list \<Rightarrow> RefinedEntry list" where
  "new_entries existing_content entries =
     filter (\<lambda>e. re_title e \<notin> set (findall_headings existing_content)) entries"

text \<open>The groups after the grouping loop has seen the entries \<open>seen\<close>.\<close>

definition grouped ::
  "(ustr \<Rightarrow> ustr option) \<Rightarrow> RefinedEntry list \<Rightarrow> (ustr \<times> RefinedEntry list) list \<Rightarrow> bool" where
  "grouped week_label seen groups \<longleftrightarrow>
     distinct (map fst groups) \<and>
     (\<forall>l. map_of groups l =
        (if bound_for week_label l seen = [] then None else Some (bound_for week_label l seen)))"

text \<open>The text a run reads for a week: the empty string when the file is missing.\<close>

definition read_week :: "vault \<Rightarrow> ustr \<Rightarrow> ustr" where
  "read_week fs l = (case fs l of None \<Rightarrow> [] | Some c \<Rightarrow> read_text c)"

section \<open>Sample inputs\<close>

text \<open>Services and inputs at which the theorems below are instantiated.\<close>

definition sample_service :: service where
  "sample_service k msg =
     (if k = 0 then Http 400 \<lparr>body_content = [], stop_reason = None\<rparr>
      else Http 200 \<lparr>body_content = [TextBlock (ascii ''fine'')], stop_reason = None\<rparr>)"

definition sample_groups :: "(ustr \<times> (ustr \<times> ustr) list) list" where
  "sample_groups =
     [(ascii ''2024-01-01'', [(ascii ''0900'', ascii ''a'')]),
      (ascii ''2024-01-02'', [(ascii ''1000'', ascii ''b'')])]"

definition truncating_service :: service where
  "truncating_service k msg =
     (if k = 0 then Http 529 \<lparr>body_content = [], stop_reason = None\<rparr>
      else Http 200 \<lparr>body_content = [TextBlock (ascii ''part'')],
                      stop_reason = Some (ascii ''max_tokens'')\<rparr>)"

definition entry_dated :: "ustr \<Rightarrow> ShareEntry" where
  "entry_dated d =
     \<lparr>se_title = ascii ''t'', se_body = ascii ''b'', se_source_file = ascii ''f.md'',
      se_source_date = d\<rparr>"

definition two_blocks :: ustr where
  "two_blocks = ascii ''## A'' @ [NL] @ ascii ''x'' @ [NL] @ ascii ''==='' @ [NL] @ ascii ''## B''
     @ [NL] @ ascii ''y''"

definition three_blocks :: ustr where
  "three_blocks = two_blocks @ [NL] @ ascii ''=== '' @ [NL] @ ascii ''no heading'' @ [NL] @
     ascii ''==='' @ [NL] @ ascii ''## C'' @ [NL] @ ascii ''z''"

definition entry :: "string \<Rightarrow> string \<Rightarrow> string \<Rightarrow> RefinedEntry" where
  "entry t c d = \<lparr>re_title = ascii t, re_content = ascii c, re_source_date = ascii d\<rparr>"

definition week18 :: ustr where
  "week18 = ascii ''Week 18 - 2024''"

definition sample_runs :: "RefinedEntry list list" where
  "sample_runs =
     [[entry ''Foo'' ''one'' ''2024-05-01'', entry ''Bar'' ''two'' ''2024-05-08''],
      [entry ''Foo'' ''again'' ''2024-05-02'', entry ''Baz'' ''three'' ''2024-05-02'']]"

definition old_week :: ustr where
  "old_week = ascii ''## T'' @ [NL, NL] @ ascii ''old text'' @ [NL]"

definition tag_field :: "string \<Rightarrow> ustr" where
  "tag_field v = tag_label @ [65306] @ ascii v"

definition pipe_segment :: ustr where
  "pipe_segment =
     ascii ''## A'' @ [NL] @ ascii ''**a**: x | '' @ tag_field ''#Share'' @ ascii '' | **b**: y''
       @ [NL] @ ascii ''---'' @ [NL] @ ascii ''first'' @ [NL]"

definition untagged_segment :: ustr where
  "untagged_segment =
     ascii ''## B'' @ [NL] @ tag_field ''#Work'' @ [NL] @ ascii ''---'' @ [NL] @ ascii ''second''
       @ [NL]"

definition multi_line_segment :: ustr where
  "multi_line_segment =
     ascii ''## C'' @ [NL] @ ascii ''**a**: x'' @ [NL] @ tag_field ''#Share'' @ [NL] @
       ascii ''---'' @ [NL] @ ascii ''third''"

definition sample_note :: ustr where
  "sample_note =
     ascii ''---'' @ [NL] @ ascii ''date: 2024-05-01'' @ [NL] @ ascii ''---'' @ [NL] @
     ascii ''# Notes'' @ [NL] @ pipe_segment @ untagged_segment @ multi_line_segment"

definition share_entry :: "string \<Rightarrow> string \<Rightarrow> ShareEntry" where
  "share_entry t b =
     \<lparr>se_title = ascii t, se_body = ascii b, se_source_file = ascii ''2024-05-01.md'',
      se_source_date = ascii ''2024-05-01''\<rparr>"

definition sample_post :: SocialPost where
  "sample_post =
     \<lparr>sp_title = ascii ''a/b: c. '', sp_brief = [], sp_twitter_cn = [], sp_linkedin_en = [],
      sp_youtube_shorts = [], sp_source_date = ascii ''2024-03-09''\<rparr>"

section \<open>Facts about strings\<close>

lemma last_dropWhile: "dropWhile P xs \<noteq> [] \<Longrightarrow> last (dropWhile P xs) = last xs"
  by (induction xs) (auto split: if_splits)

lemma rstrip_chars_last: "rstrip_chars p s \<noteq> [] \<Longrightarrow> \<not> p (last (rstrip_chars p s))"
  unfolding rstrip_chars_def
  by (metis hd_dropWhile last_rev rev_is_Nil_conv)

lemma strip_chars_last: "strip_chars p s \<noteq> [] \<Longrightarrow> \<not> p (last (strip_chars p s))"
  unfolding strip_chars_def by (rule rstrip_chars_last)

lemma strip_chars_hd:
  assumes "strip_chars p s \<noteq> []"
  shows "\<not> p (hd (strip_chars p s))"
proof -
  let ?d = "dropWhile p s"
  have ne: "dropWhile p (rev ?d) \<noteq> []"
    using assms by (simp add: strip_chars_def rstrip_chars_def lstrip_chars_def)
  have d: "?d \<noteq> []"
  proof
    assume a: "?d = []"
    have "dropWhile p (rev ?d) = []" by (simp only: a rev.simps dropWhile.simps)
    with ne show False by blast
  qed
  have "hd (strip_chars p s) = last (dropWhile p (rev ?d))"
    using ne by (simp add: strip_chars_def rstrip_chars_def lstrip_chars_def hd_rev)
  also have "\<dots> = last (rev ?d)" using ne by (rule last_dropWhile)
  also have "\<dots> = hd ?d" using d by (simp add: last_rev)
  finally show ?thesis using d by (simp add: hd_dropWhile)
qed

lemma set_strip_chars: "set (strip_chars p s) \<subseteq> set s"
  unfolding strip_chars_def rstrip_chars_def lstrip_chars_def
  by (metis set_dropWhileD set_rev subsetI)

section \<open>File names of the vault\<close>

lemma ascii_untitled: "ascii ''untitled'' = [117, 110, 116, 105, 116, 108, 101, 100]"
  by (simp add: ascii_def)

lemma safe_filename_nonempty: "safe_filename t \<noteq> []"
  by (simp add: safe_filename_def Let_def ascii_untitled)

lemma safe_filename_chars: "c \<in> set (safe_filename t) \<Longrightarrow> c \<notin> set unsafe_chars"
proof -
  assume c: "c \<in> set (safe_filename t)"
  let ?slug = "map (\<lambda>c. if c \<in> set unsafe_chars then 45 else c) t"
  have slug: "\<And>x. x \<in> set ?slug \<Longrightarrow> x \<notin> set unsafe_chars"
    by (auto simp: unsafe_chars_def)
  show ?thesis
  proof (cases "strip_chars (\<lambda>c. c = 46 \<or> c = 32) ?slug = []")
    case True
    then have "c \<in> set (ascii ''untitled'')" using c by (simp add: safe_filename_def)
    then show ?thesis by (auto simp: ascii_untitled unsafe_chars_def)
  next
    case False
    then have "c \<in> set (strip_chars (\<lambda>c. c = 46 \<or> c = 32) ?slug)"
      using c by (simp add: safe_filename_def)
    then have "c \<in> set ?slug" using set_strip_chars by blast
    then show ?thesis by (rule slug)
  qed
qed

lemma safe_filename_ends:
  "hd (safe_filename t) \<noteq> 46 \<and> hd (safe_filename t) \<noteq> 32 \<and>
   last (safe_filename t) \<noteq> 46 \<and> last (safe_filename t) \<noteq> 32"
proof -
  let ?p = "\<lambda>c::nat. c = 46 \<or> c = 32"
  let ?slug = "map (\<lambda>c. if c \<in> set unsafe_chars then 45 else c) t"
  show ?thesis
  proof (cases "strip_chars ?p ?slug = []")
    case True
    then have "safe_filename t = ascii ''untitled''" by (simp add: safe_filename_def)
    then show ?thesis by (simp add: ascii_untitled)
  next
    case False
    then have eq: "safe_filename t = strip_chars ?p ?slug" by (simp add: safe_filename_def)
    from strip_chars_hd [of ?p ?slug] strip_chars_last [of ?p ?slug] False
    show ?thesis unfolding eq by blast
  qed
qed

lemma safe_filename_fallback:
  assumes "\<forall>c \<in> set t. c = 46 \<or> c = 32"
  shows "safe_filename t = ascii ''untitled''"
proof -
  let ?p = "\<lambda>c::nat. c = 46 \<or> c = 32"
  let ?slug = "map (\<lambda>c. if c \<in> set unsafe_chars then 45 else c) t"
  have a: "\<And>c. c \<in> set ?slug \<Longrightarrow> ?p c" using assms by (auto simp: unsafe_chars_def)
  have d: "dropWhile ?p ?slug = []" unfolding dropWhile_eq_Nil_conv using a by blast
  have "strip_chars ?p ?slug = []"
    by (simp only: strip_chars_def rstrip_chars_def lstrip_chars_def d rev.simps
        dropWhile.simps)
  then show ?thesis by (simp add: safe_filename_def)
qed

lemma date_shaped_chars:
  assumes "date_shaped d" and "c \<in> set d"
  shows "c \<noteq> 47 \<and> c \<noteq> 92"
proof -
  from assms(2) obtain i where i: "i < length d" "d ! i = c"
    by (auto simp: in_set_conv_nth)
  then have "(i, c) \<in> set (enumerate 0 d)" by (simp add: in_set_enumerate_eq)
  with assms(1) have "if i = 4 \<or> i = 7 then c = 45 else digit_like c"
    by (auto simp: date_shaped_def list_all_iff)
  then show ?thesis by (auto simp: digit_like_def split: if_splits)
qed

lemma long_name: "7 \<le> length n \<Longrightarrow> n \<noteq> [] \<and> n \<noteq> ascii ''.'' \<and> n \<noteq> ascii ''..''"
  by (auto simp: ascii_def)

lemma post_path_component:
  assumes "date_shaped (sp_source_date post)"
  shows "path_component (fst (post_path post)) \<and> path_component (snd (post_path post))"
proof -
  let ?d = "sp_source_date post"
  from assms have l: "length ?d = 10" by (simp add: date_shaped_def)
  have s: "47 \<notin> set ?d" "92 \<notin> set ?d" using date_shaped_chars [OF assms] by blast+
  have t: "47 \<notin> set (take 7 ?d)" "92 \<notin> set (take 7 ?d)"
    using s by (auto dest: in_set_takeD)
  have "7 \<le> length (take 7 ?d)" using l by simp
  from long_name [OF this] t have dir: "path_component (take 7 ?d)"
    by (simp add: path_component_def)
  have sep: "47 \<notin> set (safe_filename (sp_title post))" "92 \<notin> set (safe_filename (sp_title post))"
    using safe_filename_chars [of _ "sp_title post"] by (auto simp: unsafe_chars_def)
  let ?n = "?d @ ascii ''-'' @ safe_filename (sp_title post) @ ascii ''.md''"
  have "7 \<le> length ?n" using l by simp
  from long_name [OF this] have "?n \<noteq> [] \<and> ?n \<noteq> ascii ''.'' \<and> ?n \<noteq> ascii ''..''" .
  moreover have "47 \<notin> set ?n \<and> 92 \<notin> set ?n" using s sep by (simp add: ascii_def)
  ultimately have "path_component ?n" by (simp only: path_component_def) blast
  with dir show ?thesis by (simp add: post_path_def)
qed

lemma save_to_content_vault_paths:
  "set (fst (save_to_content_vault posts fs)) \<subseteq> post_path ` set posts"
proof (induction posts arbitrary: fs)
  case Nil
  then show ?case by simp
next
  case (Cons post posts)
  show ?case
  proof (cases "fs (post_path post) \<noteq> None")
    case True
    then show ?thesis using Cons.IH [of fs] by auto
  next
    case False
    obtain written fs' where r:
      "save_to_content_vault posts (fs(post_path post \<mapsto> post_text post)) = (written, fs')"
      by (cases "save_to_content_vault posts (fs(post_path post \<mapsto> post_text post))")
    have "set (fst (save_to_content_vault posts (fs(post_path post \<mapsto> post_text post))))
        \<subseteq> post_path ` set posts"
      by (rule Cons.IH)
    then have w: "set written \<subseteq> post_path ` set posts" unfolding r by simp
    have "save_to_content_vault (post # posts) fs = (post_path post # written, fs')"
      using False r by simp
    then show ?thesis using w by auto
  qed
qed

text \<open>
  Claim C10. For every title, \<open>safe_filename\<close> returns a non-empty string that contains
  none of the characters \<^verbatim>\<open>\ / : * ? " < > |\<close> and neither starts nor ends with a dot or a
  space; it is \<^verbatim>\<open>untitled\<close> when the title holds dots and spaces only, which is when
  nothing is left of it. Every path that \<open>save_to_content_vault\<close> builds for a post with
  a date as the program makes it, and so every path it writes and returns, is a month
  directory of one path component and in it a file name of one path component.
\<close>

theorem safe_filename_component:
  "safe_filename t \<noteq> [] \<and>
   (\<forall>c \<in> set (safe_filename t). c \<notin> set unsafe_chars) \<and>
   hd (safe_filename t) \<noteq> 46 \<and> hd (safe_filename t) \<noteq> 32 \<and>
   last (safe_filename t) \<noteq> 46 \<and> last (safe_filename t) \<noteq> 32 \<and>
   ((\<forall>c \<in> set t. c = 46 \<or> c = 32) \<longrightarrow> safe_filename t = ascii ''untitled'') \<and>
   (date_shaped (sp_source_date post) \<longrightarrow>
      path_component (fst (post_path post)) \<and> path_component (snd (post_path post))) \<and>
   (list_all (\<lambda>post. date_shaped (sp_source_date post)) posts \<longrightarrow>
      (\<forall>path \<in> set (fst (save_to_content_vault posts fs)).
         path_component (fst path) \<and> path_component (snd path)))"
proof -
  have chars: "\<forall>c \<in> set (safe_filename t). c \<notin> set unsafe_chars"
    using safe_filename_chars by blast
  have fallback: "(\<forall>c \<in> set t. c = 46 \<or> c = 32) \<longrightarrow> safe_filename t = ascii ''untitled''"
    using safe_filename_fallback by blast
  have one: "date_shaped (sp_source_date post) \<longrightarrow>
      path_component (fst (post_path post)) \<and> path_component (snd (post_path post))"
    using post_path_component by blast
  have all: "list_all (\<lambda>post. date_shaped (sp_source_date post)) posts \<longrightarrow>
      (\<forall>path \<in> set (fst (save_to_content_vault posts fs)).
         path_component (fst path) \<and> path_component (snd path))"
  proof (intro impI ballI)
    fix path
    assume d: "list_all (\<lambda>post. date_shaped (sp_source_date post)) posts"
      and p: "path \<in> set (fst (save_to_content_vault posts fs))"
    from p save_to_content_vault_paths [of posts fs]
    obtain post where "post \<in> set posts" "path = post_path post" by auto
    with d post_path_component [of post]
    show "path_component (fst path) \<and> path_component (snd path)"
      by (simp add: list_all_iff)
  qed
  show ?thesis
    using safe_filename_nonempty [of t] chars safe_filename_ends [of t] fallback one all
    by blast
qed

lemma sample_post_path:
  "post_path sample_post = (ascii ''2024-03'', ascii ''2024-03-09-a-b- c.md'')"
  by (simp add: sample_post_def safe_filename_def post_path_def strip_chars_def
      rstrip_chars_def lstrip_chars_def unsafe_chars_def ascii_def)

lemma sample_post_saved:
  "fst (save_to_content_vault [sample_post] Map.empty) =
     [(ascii ''2024-03'', ascii ''2024-03-09-a-b- c.md'')]"
  by (simp add: sample_post_path)

lemma sample_post_date: "date_shaped (sp_source_date sample_post)"
  by (simp add: sample_post_def date_shaped_def digit_like_def ascii_def)

theorem safe_filename_component_witness:
  "safe_filename (ascii '' . '') = ascii ''untitled'' \<and>
   post_path sample_post = (ascii ''2024-03'', ascii ''2024-03-09-a-b- c.md'') \<and>
   fst (save_to_content_vault [sample_post] Map.empty) =
     [(ascii ''2024-03'', ascii ''2024-03-09-a-b- c.md'')] \<and>
   path_component (ascii ''2024-03'') \<and> path_component (ascii ''2024-03-09-a-b- c.md'')"
proof -
  have h1: "\<forall>c \<in> set (ascii '' . ''). c = 46 \<or> c = 32" by (simp add: ascii_def)
  have h2: "list_all (\<lambda>post. date_shaped (sp_source_date post)) [sample_post]"
    by (simp add: sample_post_date)
  from safe_filename_component [of "ascii '' . ''" sample_post "[sample_post]" Map.empty]
    h1 h2 sample_post_date
  have "safe_filename (ascii '' . '') = ascii ''untitled'' \<and>
      path_component (fst (post_path sample_post)) \<and>
      path_component (snd (post_path sample_post))"
    by blast
  then show ?thesis by (simp add: sample_post_path)
qed

section \<open>The retry loop\<close>

lemma retryable_not_200: "retryable status \<Longrightarrow> status \<noteq> 200"
  by (auto simp: retryable_def)

lemma call_claude_loop_transient:
  "\<forall>j < length as. transient (svc (requests st + j) msg) \<Longrightarrow>
   call_claude_loop svc msg (as @ bs) st =
     call_claude_loop svc msg bs
       (st\<lparr>requests := requests st + length as, sleeps := sleeps st @ map backoff as\<rparr>)"
proof (induction as arbitrary: st)
  case Nil
  then show ?case by simp
next
  case (Cons a as)
  from Cons.prems have t0: "transient (svc (requests st) msg)" by force
  let ?st = "slept (backoff a) (posted st)"
  have "\<forall>j < length as. transient (svc (requests ?st + j) msg)"
    using Cons.prems by (auto simp: slept_def posted_def)
  from Cons.IH [OF this]
  have IH: "call_claude_loop svc msg (as @ bs) ?st =
     call_claude_loop svc msg bs
       (?st\<lparr>requests := requests ?st + length as, sleeps := sleeps ?st @ map backoff as\<rparr>)" .
  have step: "call_claude_loop svc msg ((a # as) @ bs) st = call_claude_loop svc msg (as @ bs) ?st"
    using t0 by (auto simp: transient_def retryable_not_200 split: response.splits)
  show ?case unfolding step IH by (simp add: slept_def posted_def)
qed

lemma call_claude_api_loop_transient:
  "\<forall>j < length as. transient (svc (requests st + j) msg) \<Longrightarrow>
   call_claude_api_loop svc msg (as @ bs) st =
     call_claude_api_loop svc msg bs
       (st\<lparr>requests := requests st + length as, sleeps := sleeps st @ map backoff as\<rparr>)"
proof (induction as arbitrary: st)
  case Nil
  then show ?case by simp
next
  case (Cons a as)
  from Cons.prems have t0: "transient (svc (requests st) msg)" by force
  let ?st = "slept (backoff a) (posted st)"
  have "\<forall>j < length as. transient (svc (requests ?st + j) msg)"
    using Cons.prems by (auto simp: slept_def posted_def)
  from Cons.IH [OF this]
  have IH: "call_claude_api_loop svc msg (as @ bs) ?st =
     call_claude_api_loop svc msg bs
       (?st\<lparr>requests := requests ?st + length as, sleeps := sleeps ?st @ map backoff as\<rparr>)" .
  have step: "call_claude_api_loop svc msg ((a # as) @ bs) st =
      call_claude_api_loop svc msg (as @ bs) ?st"
    using t0 by (auto simp: transient_def retryable_not_200 split: response.splits)
  show ?case unfolding step IH by (simp add: slept_def posted_def)
qed

text \<open>
  Claim C4. When every answer of the service is a transient error status (429, 500, 502,
  503, 529) or a time-out, \<open>call_claude\<close> posts the request exactly \<open>MAX_RETRIES\<close> = 3
  times, sleeps \<open>RETRY_BASE_DELAY * 2 ^ attempt\<close> after each failed attempt (2, 4 and 8
  seconds, each the double of the one before; the last sleep follows the last attempt),
  and returns the empty string.
\<close>

theorem call_claude_retry_bound:
  assumes "\<forall>k. transient (svc k msg)"
  shows "call_claude svc msg st =
           ([], st\<lparr>requests := requests st + MAX_RETRIES,
                   sleeps := sleeps st @ map backoff [0..<MAX_RETRIES]\<rparr>) \<and>
         map backoff [0..<MAX_RETRIES] = [2, 4, 8] \<and>
         (\<forall>i. Suc i < MAX_RETRIES \<longrightarrow> backoff (Suc i) = 2 * backoff i)"
proof -
  have "\<forall>j < length [0..<MAX_RETRIES]. transient (svc (requests st + j) msg)"
    using assms by blast
  with call_claude_loop_transient [where as = "[0..<MAX_RETRIES]" and bs = "[]" and svc = svc
      and st = st and msg = msg]
  have "call_claude svc msg st =
           ([], st\<lparr>requests := requests st + MAX_RETRIES,
                   sleeps := sleeps st @ map backoff [0..<MAX_RETRIES]\<rparr>)"
    by (simp add: call_claude_def)
  moreover have "map backoff [0..<MAX_RETRIES] = [2, 4, 8]"
    by (simp add: MAX_RETRIES_def backoff_def RETRY_BASE_DELAY_def upt_rec numeral_3_eq_3)
  moreover have "\<forall>i. Suc i < MAX_RETRIES \<longrightarrow> backoff (Suc i) = 2 * backoff i"
    by (simp add: backoff_def)
  ultimately show ?thesis by blast
qed

theorem call_claude_retry_bound_witness:
  "call_claude (\<lambda>k m. if even k then Http 503 \<lparr>body_content = [], stop_reason = None\<rparr> else Timeout)
     (ascii ''hello'') \<lparr>requests = 0, sleeps = []\<rparr> = ([], \<lparr>requests = 3, sleeps = [2, 4, 8]\<rparr>)"
proof -
  let ?svc = "\<lambda>k (m::ustr). if even k then Http 503 \<lparr>body_content = [], stop_reason = None\<rparr> else Timeout"
  have h: "\<forall>k. transient (?svc k (ascii ''hello''))"
    by (simp add: transient_def retryable_def)
  from call_claude_retry_bound [OF h, where st = "\<lparr>requests = 0, sleeps = []\<rparr>"]
  show ?thesis by (simp add: MAX_RETRIES_def)
qed

section \<open>Daily refinement: failures and truncation\<close>

lemma refine_loop_step:
  "\<exists>st1. refine_loop force dry_run svc ((date, entries) # groups) st =
           refine_loop force dry_run svc groups st1 \<and>
         success st1 + skipped st1 + failed st1 = Suc (success st + skipped st + failed st)"
proof (cases "(outputs st date \<noteq> None \<and> \<not> force) \<or> dry_run")
  case True
  then have "refine_loop force dry_run svc ((date, entries) # groups) st =
      refine_loop force dry_run svc groups (st\<lparr>skipped := skipped st + 1\<rparr>)"
    by auto
  then show ?thesis by (intro exI [of _ "st\<lparr>skipped := skipped st + 1\<rparr>"]) simp
next
  case False
  obtain refined truncated n
    where c: "call_claude_api svc (build_user_message date entries) (rnet st) =
      ((refined, truncated), n)"
    by (metis prod.exhaust)
  show ?thesis
  proof (cases "refined = []")
    case True
    with False c have "refine_loop force dry_run svc ((date, entries) # groups) st =
      refine_loop force dry_run svc groups (st\<lparr>failed := failed st + 1, rnet := n\<rparr>)"
      by auto
    then show ?thesis
      by (intro exI [of _ "st\<lparr>failed := failed st + 1, rnet := n\<rparr>"]) simp
  next
    case ne: False
    let ?st1 = "st\<lparr>success := success st + 1,
                     outputs := (outputs st)
                       (date \<mapsto> output_md date (length entries)
                          (if truncated then refined @ truncated_marker else refined)),
                     rnet := n\<rparr>"
    from False c ne have "refine_loop force dry_run svc ((date, entries) # groups) st =
      refine_loop force dry_run svc groups ?st1"
      by auto
    then show ?thesis by (intro exI [of _ ?st1]) simp
  qed
qed

lemma refine_loop_counts:
  "success (refine_loop force dry_run svc groups st) + skipped (refine_loop force dry_run svc groups st)
     + failed (refine_loop force dry_run svc groups st)
   = success st + skipped st + failed st + length groups"
proof (induction groups arbitrary: st)
  case Nil
  then show ?case by simp
next
  case (Cons g groups)
  obtain date entries where g: "g = (date, entries)" by (cases g)
  from refine_loop_step [of force dry_run svc date entries groups st]
  obtain st1 where 1: "refine_loop force dry_run svc (g # groups) st =
           refine_loop force dry_run svc groups st1"
    and 2: "success st1 + skipped st1 + failed st1 = Suc (success st + skipped st + failed st)"
    unfolding g by blast
  show ?case unfolding 1 Cons.IH [of st1] 2 by simp
qed

text \<open>
  Claim C5, as amended. In \<open>refine_all\<close> a date whose refinement call returns the empty
  text is counted as failed, nothing is written for it, and the loop goes on with the
  remaining dates: with a credential (or in a dry run) \<open>refine_all\<close> returns for every
  service, and its three counters account for every date. In the share pipelines the
  caller does not go on: \<open>refine_for_twitter\<close> raises \<^verbatim>\<open>SystemExit\<close> on an empty result
  (as \<^verbatim>\<open>generate_social_posts\<close> and \<^verbatim>\<open>prepare_linkedin_posts\<close> do), which ends the run.
\<close>

theorem refine_all_isolates_failures:
  "(dry_run \<or> env_key \<noteq> [] \<longrightarrow>
      (\<exists>st'. refine_all force dry_run env_key svc groups out n = Inr st' \<and>
             success st' + skipped st' + failed st' = length groups)) \<and>
   ((outputs st date = None \<or> force) \<and>
    fst (fst (call_claude_api svc (build_user_message date entries) (rnet st))) = [] \<longrightarrow>
      refine_loop force False svc ((date, entries) # rest) st =
        refine_loop force False svc rest
          (st\<lparr>failed := failed st + 1,
              rnet := snd (call_claude_api svc (build_user_message date entries) (rnet st))\<rparr>)) \<and>
   (output_dir ''01_extracted.md'' = Some user_message \<and>
    fst (call_claude svc user_message n) = [] \<longrightarrow>
      refine_for_twitter svc output_dir n =
        Inl (SystemExit ''ERROR: Claude API returned empty response for refinement.''))"
proof (intro conjI impI)
  assume "dry_run \<or> env_key \<noteq> []"
  then show "\<exists>st'. refine_all force dry_run env_key svc groups out n = Inr st' \<and>
             success st' + skipped st' + failed st' = length groups"
    by (auto simp: refine_all_def Let_def refine_loop_counts)
next
  assume a: "(outputs st date = None \<or> force) \<and>
    fst (fst (call_claude_api svc (build_user_message date entries) (rnet st))) = []"
  then show "refine_loop force False svc ((date, entries) # rest) st =
        refine_loop force False svc rest
          (st\<lparr>failed := failed st + 1,
              rnet := snd (call_claude_api svc (build_user_message date entries) (rnet st))\<rparr>)"
    by (cases "call_claude_api svc (build_user_message date entries) (rnet st)") auto
next
  assume "output_dir ''01_extracted.md'' = Some user_message \<and>
    fst (call_claude svc user_message n) = []"
  then show "refine_for_twitter svc output_dir n =
        Inl (SystemExit ''ERROR: Claude API returned empty response for refinement.'')"
    by (cases "call_claude svc user_message n") (auto simp: refine_for_twitter_def)
qed

lemma sample_refine_all:
  "refine_all False False (ascii ''key'') sample_service sample_groups Map.empty
     \<lparr>requests = 0, sleeps = []\<rparr> =
   Inr \<lparr>success = 1, skipped = 0, failed = 1,
        outputs = [ascii ''2024-01-02'' \<mapsto> output_md (ascii ''2024-01-02'') 1 (ascii ''fine'')],
        rnet = \<lparr>requests = 2, sleeps = []\<rparr>\<rparr>"
  by (simp add: refine_all_def sample_groups_def sample_service_def call_claude_api_def
      MAX_RETRIES_def upt_rec posted_def retryable_def text_blocks_def List.map_filter_simps
      ascii_def)

theorem refine_all_isolates_failures_witness:
  "(\<exists>st'. refine_all False False (ascii ''key'') sample_service sample_groups Map.empty
            \<lparr>requests = 0, sleeps = []\<rparr> = Inr st' \<and>
          success st' + skipped st' + failed st' = length sample_groups \<and>
          success st' = 1 \<and> failed st' = 1 \<and> outputs st' (ascii ''2024-01-01'') = None) \<and>
   refine_for_twitter (\<lambda>k msg. Timeout) [''01_extracted.md'' \<mapsto> ascii ''## A'']
       \<lparr>requests = 0, sleeps = []\<rparr> =
     Inl (SystemExit ''ERROR: Claude API returned empty response for refinement.'')"
proof -
  let ?n = "\<lparr>requests = 0, sleeps = []\<rparr>"
  let ?dir = "[''01_extracted.md'' \<mapsto> ascii ''## A'']"
  have h1: "False \<or> ascii ''key'' \<noteq> []" by (simp add: ascii_def)
  have h3: "?dir ''01_extracted.md'' = Some (ascii ''## A'') \<and>
      fst (call_claude (\<lambda>k msg. Timeout) (ascii ''## A'') ?n) = []"
    by (simp add: call_claude_def MAX_RETRIES_def upt_rec)
  note th = refine_all_isolates_failures [where force = False and dry_run = False
      and env_key = "ascii ''key''" and svc = sample_service and groups = sample_groups
      and out = Map.empty and n = ?n]
  from th h1 have a: "\<exists>st'. refine_all False False (ascii ''key'') sample_service sample_groups
        Map.empty ?n = Inr st' \<and> success st' + skipped st' + failed st' = length sample_groups"
    by blast
  from refine_all_isolates_failures [where svc = "\<lambda>k msg. Timeout" and output_dir = ?dir
        and user_message = "ascii ''## A''" and n = ?n] h3
  have c: "refine_for_twitter (\<lambda>k msg. Timeout) ?dir ?n =
     Inl (SystemExit ''ERROR: Claude API returned empty response for refinement.'')"
    by blast
  have diff: "ascii ''2024-01-01'' \<noteq> ascii ''2024-01-02''" by (simp add: ascii_def)
  from a c diff show ?thesis unfolding sample_refine_all by auto
qed

text \<open>
  Claim C5 as stated fails for the share pipelines: a status 400 answer gives the empty
  result, and \<open>refine_for_twitter\<close> ends the whole run with \<^verbatim>\<open>SystemExit\<close>.
\<close>

theorem empty_result_aborts_share_pipeline:
  "refine_for_twitter (\<lambda>k msg. Http 400 \<lparr>body_content = [], stop_reason = None\<rparr>)
       [''01_extracted.md'' \<mapsto> ascii ''## A''] \<lparr>requests = 0, sleeps = []\<rparr> =
     Inl (SystemExit ''ERROR: Claude API returned empty response for refinement.'')"
  by (simp add: refine_for_twitter_def call_claude_def MAX_RETRIES_def upt_rec posted_def
      retryable_def)

lemma call_claude_api_ok:
  assumes k: "k < MAX_RETRIES"
    and t: "\<forall>j<k. transient (svc (requests st + j) msg)"
    and ok: "svc (requests st + k) msg = Http 200 data"
  shows "call_claude_api svc msg st =
           ((text_blocks data, stop_reason data = Some (ascii ''max_tokens'')),
            st\<lparr>requests := requests st + Suc k, sleeps := sleeps st @ map backoff [0..<k]\<rparr>)"
proof -
  have split: "[0..<MAX_RETRIES] = [0..<k] @ k # [Suc k..<MAX_RETRIES]"
    using k by (metis le_add2 le_add_same_cancel2 less_imp_add_positive upt_add_eq_append upt_conv_Cons
        less_or_eq_imp_le zero_le)
  have t': "\<forall>j<length [0..<k]. transient (svc (requests st + j) msg)" using t by simp
  show ?thesis
    unfolding call_claude_api_def split
      call_claude_api_loop_transient [where as = "[0..<k]" and svc = svc and st = st and msg = msg,
        OF t']
    using ok by (simp add: posted_def)
qed

text \<open>
  Claim C7, as amended. For a status 200 answer (reached within the retry bound) whose stop
  reason is \<^verbatim>\<open>"max_tokens"\<close>, \<open>call_claude_api\<close> returns \<open>truncated = True\<close>; when the
  text of the answer is not empty, \<open>refine_all\<close> writes the text followed by the marker
  \<^verbatim>\<open>"\n\n[TRUNCATED]\n"\<close> to the file of the date and counts the date as a success, not
  as a failure.
\<close>

theorem truncation_is_flagged_success:
  assumes "k < MAX_RETRIES"
    and "\<forall>j<k. transient (svc (requests (rnet st) + j) (build_user_message date entries))"
    and "svc (requests (rnet st) + k) (build_user_message date entries) = Http 200 data"
    and "stop_reason data = Some (ascii ''max_tokens'')"
  shows "fst (call_claude_api svc (build_user_message date entries) (rnet st)) =
           (text_blocks data, True) \<and>
         ((outputs st date = None \<or> force) \<and> text_blocks data \<noteq> [] \<longrightarrow>
            refine_loop force False svc ((date, entries) # rest) st =
              refine_loop force False svc rest
                (st\<lparr>success := success st + 1,
                    outputs := (outputs st)
                      (date \<mapsto> output_md date (length entries)
                         (text_blocks data @ truncated_marker)),
                    rnet := (rnet st)\<lparr>requests := requests (rnet st) + Suc k,
                      sleeps := sleeps (rnet st) @ map backoff [0..<k]\<rparr>\<rparr>))"
  using call_claude_api_ok [where k = k and svc = svc and st = "rnet st"
      and msg = "build_user_message date entries" and data = data] assms
  by auto

theorem truncation_is_flagged_success_witness:
  "fst (call_claude_api truncating_service
          (build_user_message (ascii ''2024-01-03'') [(ascii ''0900'', ascii ''a'')])
          \<lparr>requests = 0, sleeps = []\<rparr>) = (ascii ''part'', True) \<and>
   refine_loop False False truncating_service [(ascii ''2024-01-03'', [(ascii ''0900'', ascii ''a'')])]
     \<lparr>success = 0, skipped = 0, failed = 0, outputs = Map.empty,
       rnet = \<lparr>requests = 0, sleeps = []\<rparr>\<rparr> =
   \<lparr>success = 1, skipped = 0, failed = 0,
     outputs = [ascii ''2024-01-03'' \<mapsto>
        output_md (ascii ''2024-01-03'') 1 (ascii ''part'' @ truncated_marker)],
     rnet = \<lparr>requests = 2, sleeps = [2]\<rparr>\<rparr>"
proof -
  let ?st = "\<lparr>success = 0, skipped = 0, failed = 0, outputs = Map.empty,
       rnet = \<lparr>requests = 0, sleeps = []\<rparr>\<rparr>"
  let ?data = "\<lparr>body_content = [TextBlock (ascii ''part'')],
                      stop_reason = Some (ascii ''max_tokens'')\<rparr>"
  let ?msg = "build_user_message (ascii ''2024-01-03'') [(ascii ''0900'', ascii ''a'')]"
  have h1: "(1::nat) < MAX_RETRIES" by (simp add: MAX_RETRIES_def)
  have h2: "\<forall>j<1. transient (truncating_service (requests (rnet ?st) + j) ?msg)"
    by (simp add: truncating_service_def transient_def retryable_def)
  have h3: "truncating_service (requests (rnet ?st) + 1) ?msg = Http 200 ?data"
    by (simp add: truncating_service_def)
  have h4: "stop_reason ?data = Some (ascii ''max_tokens'')" by simp
  have tb: "text_blocks ?data = ascii ''part''"
    by (simp add: text_blocks_def List.map_filter_simps)
  have ne: "ascii ''part'' \<noteq> []" by (simp add: ascii_def)
  from truncation_is_flagged_success [where k = 1 and svc = truncating_service and st = ?st
      and date = "ascii ''2024-01-03''" and entries = "[(ascii ''0900'', ascii ''a'')]"
      and data = ?data and force = False and rest = "[]", OF h1 h2 h3 h4]
  show ?thesis unfolding tb using ne
    by (simp add: backoff_def RETRY_BASE_DELAY_def)
qed

text \<open>
  Claim C7 as stated fails when the truncated answer carries no text: the test
  \<^verbatim>\<open>if not refined\<close> comes before the marker is appended, so the date is counted as
  failed and no file is written.
\<close>

theorem truncated_empty_text_counts_failed:
  "call_claude_api
     (\<lambda>k msg. Http 200 \<lparr>body_content = [], stop_reason = Some (ascii ''max_tokens'')\<rparr>)
     (build_user_message (ascii ''2024-01-03'') [(ascii ''0900'', ascii ''a'')])
     \<lparr>requests = 0, sleeps = []\<rparr> = (([], True), \<lparr>requests = 1, sleeps = []\<rparr>) \<and>
   refine_all False False (ascii ''key'')
     (\<lambda>k msg. Http 200 \<lparr>body_content = [], stop_reason = Some (ascii ''max_tokens'')\<rparr>)
     [(ascii ''2024-01-03'', [(ascii ''0900'', ascii ''a'')])] Map.empty \<lparr>requests = 0, sleeps = []\<rparr> =
   Inr \<lparr>success = 0, skipped = 0, failed = 1, outputs = Map.empty,
        rnet = \<lparr>requests = 1, sleeps = []\<rparr>\<rparr>"
  by (simp add: refine_all_def call_claude_api_def MAX_RETRIES_def upt_rec posted_def
      text_blocks_def List.map_filter_simps ascii_def)

section \<open>Provenance by position\<close>

lemma parse_refined_loop_None:
  "match_heading b = None \<Longrightarrow>
   parse_refined_loop today src i (b # bs) = parse_refined_loop today src (Suc i) bs"
  by simp

lemma parse_refined_loop_Some:
  assumes "match_heading b = Some g"
  shows "fst (parse_refined_loop today src i (b # bs)) =
           \<lparr>re_title = strip g, re_content = strip (drop (3 + length g) b),
             re_source_date = dated today src i\<rparr> # fst (parse_refined_loop today src (Suc i) bs)"
    and "snd (parse_refined_loop today src i (b # bs)) =
           (if dated today src i = today \<and>
               (if i < length src then se_source_date (src ! i) else []) = []
            then strip g # snd (parse_refined_loop today src (Suc i) bs)
            else snd (parse_refined_loop today src (Suc i) bs))"
  using assms
  by (cases "parse_refined_loop today src (Suc i) bs"; simp add: dated_def Let_def)+

declare parse_refined_loop.simps(2) [simp del]

lemma parse_refined_loop_dates:
  "\<forall>b \<in> set bs. match_heading b \<noteq> None \<Longrightarrow>
   map re_source_date (fst (parse_refined_loop today src i bs)) =
     map (dated today src) [i..<i + length bs]"
proof (induction bs arbitrary: i)
  case Nil
  then show ?case by simp
next
  case (Cons b bs)
  then obtain g where g: "match_heading b = Some g" by auto
  from Cons have IH: "map re_source_date (fst (parse_refined_loop today src (Suc i) bs)) =
     map (dated today src) [Suc i..<Suc i + length bs]" by simp
  have "i < i + length (b # bs)" by simp
  then have "[i..<i + length (b # bs)] = i # [Suc i..<i + length (b # bs)]"
    by (rule upt_conv_Cons)
  then have "[i..<i + length (b # bs)] = i # [Suc i..<Suc i + length bs]" by simp
  then show ?case unfolding parse_refined_loop_Some(1) [OF g] using IH by simp
qed

lemma parse_refined_loop_length:
  "length (fst (parse_refined_loop today src i bs)) =
     length (filter (\<lambda>b. match_heading b \<noteq> None) bs)"
proof (induction bs arbitrary: i)
  case Nil
  then show ?case by simp
next
  case (Cons b bs)
  show ?case
  proof (cases "match_heading b")
    case None
    then show ?thesis using Cons.IH [of "Suc i"] by (simp add: parse_refined_loop_None)
  next
    case (Some g)
    then show ?thesis using Cons.IH [of "Suc i"] by (simp add: parse_refined_loop_Some(1))
  qed
qed

lemma parse_refined_loop_overrun:
  "j < length bs \<Longrightarrow> match_heading (bs ! j) = Some g \<Longrightarrow> length src \<le> i + j \<Longrightarrow>
   \<lparr>re_title = strip g, re_content = strip (drop (3 + length g) (bs ! j)),
     re_source_date = today\<rparr> \<in> set (fst (parse_refined_loop today src i bs)) \<and>
   strip g \<in> set (snd (parse_refined_loop today src i bs))"
proof (induction bs arbitrary: i j)
  case Nil
  then show ?case by simp
next
  case (Cons b bs)
  show ?case
  proof (cases j)
    case 0
    with Cons.prems have g: "match_heading b = Some g" and i: "length src \<le> i" by simp_all
    from i have d: "dated today src i = today" by (simp add: dated_def)
    show ?thesis unfolding parse_refined_loop_Some [OF g] d using 0 i by simp
  next
    case (Suc j')
    with Cons.prems have "j' < length bs" "match_heading (bs ! j') = Some g"
      "length src \<le> Suc i + j'" by simp_all
    from Cons.IH [OF this] have IH:
      "\<lparr>re_title = strip g, re_content = strip (drop (3 + length g) ((b # bs) ! j)),
         re_source_date = today\<rparr> \<in> set (fst (parse_refined_loop today src (Suc i) bs)) \<and>
       strip g \<in> set (snd (parse_refined_loop today src (Suc i) bs))"
      using Suc by simp
    show ?thesis
    proof (cases "match_heading b")
      case None
      then show ?thesis using IH by (simp add: parse_refined_loop_None)
    next
      case (Some g')
      show ?thesis unfolding parse_refined_loop_Some [OF Some] using IH by simp
    qed
  qed
qed

text \<open>
  Claim C3, as amended. When the refined artifact splits into as many blocks as there are
  original entries and every block starts with a heading (\<^verbatim>\<open>## \<close> and at least one more
  character on the line), \<open>parse_refined_entries\<close> returns one record per entry, and the
  record at position \<open>i\<close> carries the \<^verbatim>\<open>source_date\<close> of the original entry at position
  \<open>i\<close> when that date is not empty, and today's date when it is empty.
\<close>

theorem positional_provenance:
  assumes "output_dir ''02_twitter.md'' = Some artifact"
    and "length (split_blocks artifact) = length source_entries"
    and "\<forall>b \<in> set (split_blocks artifact). match_heading b \<noteq> None"
  shows "\<exists>refined warnings.
           parse_refined_entries today output_dir source_entries = Inr (refined, warnings) \<and>
           length refined = length source_entries \<and>
           (\<forall>i < length source_entries.
              re_source_date (refined ! i) =
                (if se_source_date (source_entries ! i) = [] then today
                 else se_source_date (source_entries ! i)))"
proof -
  let ?r = "parse_refined_loop today source_entries 0 (split_blocks artifact)"
  have res: "parse_refined_entries today output_dir source_entries = Inr (fst ?r, snd ?r)"
    using assms(1) by (simp add: parse_refined_entries_def)
  have dates: "map re_source_date (fst ?r) = map (dated today source_entries) [0..<length source_entries]"
    using parse_refined_loop_dates [OF assms(3), of today source_entries 0] assms(2) by simp
  then have len: "length (fst ?r) = length source_entries"
    by (metis length_map length_upt minus_nat.diff_0)
  have "\<forall>i < length source_entries. re_source_date (fst ?r ! i) = dated today source_entries i"
  proof (intro allI impI)
    fix i assume i: "i < length source_entries"
    then have "re_source_date (fst ?r ! i) = map re_source_date (fst ?r) ! i"
      using len by simp
    also have "\<dots> = dated today source_entries i" unfolding dates using i by simp
    finally show "re_source_date (fst ?r ! i) = dated today source_entries i" .
  qed
  then have "\<forall>i < length source_entries.
              re_source_date (fst ?r ! i) =
                (if se_source_date (source_entries ! i) = [] then today
                 else se_source_date (source_entries ! i))"
    by (simp add: dated_def)
  with res len show ?thesis by blast
qed

lemma dated_undated:
  "dated today src i = (if undated src i then today else se_source_date (src ! i))"
  by (simp add: dated_def undated_def Let_def)

lemma undated_iff:
  "undated src i \<longleftrightarrow> (if i < length src then se_source_date (src ! i) else []) = []"
  by (simp add: undated_def)

lemma parse_refined_loop_eq:
  "parse_refined_loop today src i bs =
     (map (record_of today src)
        (filter (\<lambda>(i, b). match_heading b \<noteq> None) (enumerate i bs)),
      map (\<lambda>(i, b). strip (the (match_heading b)))
        (filter (\<lambda>(i, b). undated src i)
           (filter (\<lambda>(i, b). match_heading b \<noteq> None) (enumerate i bs))))"
proof (induction bs arbitrary: i)
  case Nil
  then show ?case by simp
next
  case (Cons b bs)
  show ?case
  proof (cases "match_heading b")
    case None
    then show ?thesis using Cons.IH [of "Suc i"] by (simp add: parse_refined_loop_None)
  next
    case (Some g)
    have d: "dated today src i = today \<and>
        (if i < length src then se_source_date (src ! i) else []) = [] \<longleftrightarrow> undated src i"
      by (auto simp: dated_undated undated_iff)
    show ?thesis
      unfolding prod_eq_iff fst_conv snd_conv parse_refined_loop_Some [OF Some] d
      using Cons.IH [of "Suc i"] Some
      by (simp add: record_of_def dated_undated)
  qed
qed

text \<open>
  Claim C6, as amended. \<open>parse_refined_entries\<close> makes one record for every block that
  starts with a heading, in the order of the blocks, and none for an original entry
  without a block: with fewer blocks than entries the result has at most as many records
  as there are blocks. The record of a block carries the date of the entry at the
  block's position; it carries today's date, and a warning is printed for its title,
  exactly when that position has no date: it overruns the entry list (more blocks than
  entries), or the entry there has the empty date. Parsing goes on in either case.
\<close>

theorem overrun_defaults_to_today:
  assumes "output_dir ''02_twitter.md'' = Some artifact"
  shows "\<exists>refined warnings.
           parse_refined_entries today output_dir source_entries = Inr (refined, warnings) \<and>
           refined = map (record_of today source_entries) (headed (split_blocks artifact)) \<and>
           warnings =
             map (\<lambda>(i, block). strip (the (match_heading block)))
               (filter (\<lambda>(i, block). undated source_entries i) (headed (split_blocks artifact))) \<and>
           length refined = length (filter (\<lambda>b. match_heading b \<noteq> None) (split_blocks artifact)) \<and>
           length refined \<le> length (split_blocks artifact) \<and>
           (\<forall>i g. length source_entries \<le> i \<and> i < length (split_blocks artifact) \<and>
                  match_heading (split_blocks artifact ! i) = Some g \<longrightarrow>
              \<lparr>re_title = strip g,
                re_content = strip (drop (3 + length g) (split_blocks artifact ! i)),
                re_source_date = today\<rparr> \<in> set refined \<and>
              strip g \<in> set warnings)"
proof -
  let ?r = "parse_refined_loop today source_entries 0 (split_blocks artifact)"
  have res: "parse_refined_entries today output_dir source_entries = Inr (fst ?r, snd ?r)"
    using assms(1) by (simp add: parse_refined_entries_def)
  have r1: "fst ?r = map (record_of today source_entries) (headed (split_blocks artifact))"
    by (simp add: parse_refined_loop_eq headed_def)
  have r2: "snd ?r =
      map (\<lambda>(i, block). strip (the (match_heading block)))
        (filter (\<lambda>(i, block). undated source_entries i) (headed (split_blocks artifact)))"
    by (simp add: parse_refined_loop_eq headed_def)
  have len: "length (fst ?r) =
      length (filter (\<lambda>b. match_heading b \<noteq> None) (split_blocks artifact))"
    by (rule parse_refined_loop_length)
  then have le: "length (fst ?r) \<le> length (split_blocks artifact)" by simp
  have over: "\<forall>i g. length source_entries \<le> i \<and> i < length (split_blocks artifact) \<and>
                  match_heading (split_blocks artifact ! i) = Some g \<longrightarrow>
              \<lparr>re_title = strip g,
                re_content = strip (drop (3 + length g) (split_blocks artifact ! i)),
                re_source_date = today\<rparr> \<in> set (fst ?r) \<and>
              strip g \<in> set (snd ?r)"
  proof (intro allI impI)
    fix i g
    assume a: "length source_entries \<le> i \<and> i < length (split_blocks artifact) \<and>
                  match_heading (split_blocks artifact ! i) = Some g"
    then have "i < length (split_blocks artifact)"
      and "match_heading (split_blocks artifact ! i) = Some g"
      and "length source_entries \<le> 0 + i" by simp_all
    then show "\<lparr>re_title = strip g,
                re_content = strip (drop (3 + length g) (split_blocks artifact ! i)),
                re_source_date = today\<rparr> \<in> set (fst ?r) \<and>
              strip g \<in> set (snd ?r)"
      by (rule parse_refined_loop_overrun)
  qed
  from res r1 r2 len le over show ?thesis by blast
qed

lemmas str_eval = ascii_def split_on_def strip_def strip_chars_def rstrip_chars_def
  lstrip_chars_def rstrip_def isspace_def is_rule_line_def match_heading_def

lemma two_blocks_split:
  "split_blocks two_blocks = [ascii ''## A'' @ [NL] @ ascii ''x'', ascii ''## B'' @ [NL] @ ascii ''y'']"
  by (simp add: split_blocks_def two_blocks_def str_eval)

lemma two_blocks_match:
  "match_heading (ascii ''## A'' @ [NL] @ ascii ''x'') = Some (ascii ''A'')"
  "match_heading (ascii ''## B'' @ [NL] @ ascii ''y'') = Some (ascii ''B'')"
  by (simp_all add: str_eval)

theorem positional_provenance_witness:
  "\<exists>refined warnings.
     parse_refined_entries (ascii ''2026-11-03'') [''02_twitter.md'' \<mapsto> two_blocks]
       [entry_dated (ascii ''2024-05-01''), entry_dated []] = Inr (refined, warnings) \<and>
     length refined = 2 \<and>
     re_source_date (refined ! 0) = ascii ''2024-05-01'' \<and>
     re_source_date (refined ! 1) = ascii ''2026-11-03''"
proof -
  let ?src = "[entry_dated (ascii ''2024-05-01''), entry_dated []]"
  let ?dir = "[''02_twitter.md'' \<mapsto> two_blocks]"
  have h1: "?dir ''02_twitter.md'' = Some two_blocks" by simp
  have h2: "length (split_blocks two_blocks) = length ?src" by (simp add: two_blocks_split)
  have h3: "\<forall>b \<in> set (split_blocks two_blocks). match_heading b \<noteq> None"
    by (simp add: two_blocks_split str_eval)
  have ne: "ascii ''2024-05-01'' \<noteq> []" by (simp add: ascii_def)
  from positional_provenance [where output_dir = ?dir and artifact = two_blocks
      and today = "ascii ''2026-11-03''" and source_entries = ?src] h1 h2 h3
  obtain refined warnings where
    r: "parse_refined_entries (ascii ''2026-11-03'') ?dir ?src = Inr (refined, warnings)"
    and l: "length refined = length ?src"
    and d: "\<forall>i < length ?src. re_source_date (refined ! i) =
                (if se_source_date (?src ! i) = [] then ascii ''2026-11-03''
                 else se_source_date (?src ! i))"
    by blast
  from d have "re_source_date (refined ! 0) = ascii ''2024-05-01''"
    using ne by (simp add: entry_dated_def)
  moreover from d have "re_source_date (refined ! 1) = ascii ''2026-11-03''"
    by (simp add: entry_dated_def)
  ultimately show ?thesis using r l by auto
qed

text \<open>
  Claim C3 as stated fails for an entry whose \<^verbatim>\<open>source_date\<close> is the empty string: the
  record does not get the empty string but today's date, with a warning.
\<close>

theorem empty_source_date_replaced:
  "parse_refined_entries (ascii ''2026-11-03'')
     [''02_twitter.md'' \<mapsto> ascii ''## T'' @ [NL] @ ascii ''body''] [entry_dated []] =
   Inr ([\<lparr>re_title = ascii ''T'', re_content = ascii ''body'',
          re_source_date = ascii ''2026-11-03''\<rparr>], [ascii ''T'']) \<and>
   se_source_date (entry_dated []) = [] \<and> ascii ''2026-11-03'' \<noteq> []"
  by (simp add: parse_refined_entries_def split_blocks_def parse_refined_loop.simps str_eval
      entry_dated_def Let_def)

lemma three_blocks_split:
  "split_blocks three_blocks =
     [ascii ''## A'' @ [NL] @ ascii ''x'', ascii ''## B'' @ [NL] @ ascii ''y'', ascii ''no heading'',
      ascii ''## C'' @ [NL] @ ascii ''z'']"
  by (simp add: split_blocks_def three_blocks_def two_blocks_def str_eval)

theorem overrun_defaults_to_today_witness:
  "\<exists>refined warnings.
     parse_refined_entries (ascii ''2026-11-03'') [''02_twitter.md'' \<mapsto> three_blocks]
       [entry_dated (ascii ''2024-05-01'')] = Inr (refined, warnings) \<and>
     length refined = 3 \<and>
     \<lparr>re_title = ascii ''C'', re_content = ascii ''z'', re_source_date = ascii ''2026-11-03''\<rparr>
       \<in> set refined \<and>
     ascii ''C'' \<in> set warnings"
proof -
  let ?src = "[entry_dated (ascii ''2024-05-01'')]"
  let ?dir = "[''02_twitter.md'' \<mapsto> three_blocks]"
  have h1: "?dir ''02_twitter.md'' = Some three_blocks" by simp
  have m: "match_heading (ascii ''## C'' @ [NL] @ ascii ''z'') = Some (ascii ''C'')"
    "match_heading (ascii ''no heading'') = None"
    by (simp_all add: str_eval)
  have c: "strip (ascii ''C'') = ascii ''C''"
    "strip (drop (3 + length (ascii ''C'')) (ascii ''## C'' @ [NL] @ ascii ''z'')) = ascii ''z''"
    by (simp_all add: str_eval)
  from overrun_defaults_to_today [where output_dir = ?dir and artifact = three_blocks
      and today = "ascii ''2026-11-03''" and source_entries = ?src] h1
  obtain refined warnings where
    r: "parse_refined_entries (ascii ''2026-11-03'') ?dir ?src = Inr (refined, warnings)"
    and l: "length refined =
      length (filter (\<lambda>b. match_heading b \<noteq> None) (split_blocks three_blocks))"
    and o: "\<forall>i g. length ?src \<le> i \<and> i < length (split_blocks three_blocks) \<and>
                  match_heading (split_blocks three_blocks ! i) = Some g \<longrightarrow>
              \<lparr>re_title = strip g,
                re_content = strip (drop (3 + length g) (split_blocks three_blocks ! i)),
                re_source_date = ascii ''2026-11-03''\<rparr> \<in> set refined \<and>
              strip g \<in> set warnings"
    by blast
  from l have l3: "length refined = 3"
    by (simp add: three_blocks_split str_eval)
  have "length ?src \<le> 3 \<and> 3 < length (split_blocks three_blocks) \<and>
      match_heading (split_blocks three_blocks ! 3) = Some (ascii ''C'')"
    by (simp add: three_blocks_split str_eval)
  with o have "\<lparr>re_title = strip (ascii ''C''),
                re_content = strip (drop (3 + length (ascii ''C'')) (split_blocks three_blocks ! 3)),
                re_source_date = ascii ''2026-11-03''\<rparr> \<in> set refined \<and>
              strip (ascii ''C'') \<in> set warnings"
    by blast
  then have "\<lparr>re_title = ascii ''C'', re_content = ascii ''z'',
       re_source_date = ascii ''2026-11-03''\<rparr> \<in> set refined \<and> ascii ''C'' \<in> set warnings"
    by (simp add: three_blocks_split str_eval)
  with r l3 show ?thesis by blast
qed

text \<open>
  Claim C6 as stated fails in its first half: with two entries and one block the result
  is one record with the first entry's date; no record carries today's date and no
  warning is printed.
\<close>

theorem fewer_blocks_no_fallback:
  "parse_refined_entries (ascii ''2026-11-03'')
     [''02_twitter.md'' \<mapsto> ascii ''## A'' @ [NL] @ ascii ''x'']
     [entry_dated (ascii ''2024-05-01''), entry_dated (ascii ''2024-05-02'')] =
   Inr ([\<lparr>re_title = ascii ''A'', re_content = ascii ''x'',
          re_source_date = ascii ''2024-05-01''\<rparr>], [])"
  by (simp add: parse_refined_entries_def split_blocks_def parse_refined_loop.simps str_eval
      entry_dated_def Let_def)

text \<open>With fewer blocks than entries a record falls back to today's date only when the
  entry at its own position has the empty date.\<close>

lemma fewer_blocks_empty_date:
  "parse_refined_entries (ascii ''2026-11-03'')
     [''02_twitter.md'' \<mapsto> ascii ''## A'' @ [NL] @ ascii ''x'']
     [entry_dated [], entry_dated (ascii ''2024-05-02'')] =
   Inr ([\<lparr>re_title = ascii ''A'', re_content = ascii ''x'',
          re_source_date = ascii ''2026-11-03''\<rparr>], [ascii ''A''])"
  by (simp add: parse_refined_entries_def split_blocks_def parse_refined_loop.simps str_eval
      entry_dated_def Let_def)

section \<open>Reading a file\<close>

lemma read_text_no_CR: "13 \<notin> set (read_text s)"
  by (induction s rule: read_text.induct) auto

lemma read_text_id: "13 \<notin> set s \<Longrightarrow> read_text s = s"
  by (induction s rule: read_text.induct) auto

section \<open>Lines, headings and trailing white space\<close>

lemma split_where_nonempty: "split_where p xs \<noteq> []"
  by (induction xs) (auto split: list.splits)

lemma split_where_append:
  "p c \<Longrightarrow> split_where p (xs @ c # ys) = split_where p xs @ split_where p ys"
proof (induction xs)
  case Nil
  then show ?case by simp
next
  case (Cons x xs)
  obtain l ls where s: "split_where p xs = l # ls"
    using split_where_nonempty [of p xs] by (cases "split_where p xs") auto
  show ?case using Cons s by simp
qed

lemma split_where_none: "\<forall>c \<in> set xs. \<not> p c \<Longrightarrow> split_where p xs = [xs]"
  by (induction xs) auto

lemma heading_lines_Nil: "heading_lines [] = []"
  by (simp add: heading_lines_def split_on_def ascii_def)

lemma heading_lines_NL:
  "heading_lines (a @ NL # b) = heading_lines a @ heading_lines b"
  by (simp add: heading_lines_def split_on_def split_where_append)

lemma heading_lines_NL_start: "heading_lines (NL # b) = heading_lines b"
  using heading_lines_NL [of "[]" b] by (simp add: heading_lines_Nil)

lemma heading_lines_NL_end: "heading_lines (a @ [NL]) = heading_lines a"
  using heading_lines_NL [of a "[]"] by (simp add: heading_lines_Nil)

lemma heading_lines_after_NL:
  assumes "W = [] \<or> last W = NL"
  shows "heading_lines (W @ x) = heading_lines W @ heading_lines x"
proof (cases "W = []")
  case True
  then show ?thesis by (simp add: heading_lines_Nil)
next
  case False
  with assms obtain W' where W: "W = W' @ [NL]"
    by (metis append_butlast_last_id)
  have "heading_lines (W' @ NL # x) = heading_lines W' @ heading_lines x"
    by (rule heading_lines_NL)
  then show ?thesis unfolding W by (simp add: heading_lines_NL_end)
qed

lemma heading_lines_line:
  assumes "NL \<notin> set l"
  shows "heading_lines l = (if take 3 l = ascii ''## '' then [l] else [])"
proof -
  have "\<forall>c \<in> set l. \<not> c = NL" using assms by auto
  then have "split_where (\<lambda>c. c = NL) l = [l]" by (rule split_where_none)
  then show ?thesis by (simp add: heading_lines_def split_on_def)
qed

lemma heading_lines_heading:
  "NL \<notin> set t \<Longrightarrow> heading_lines (ascii ''## '' @ t) = [ascii ''## '' @ t]"
  by (subst heading_lines_line) (simp_all add: ascii_def)

lemma heading_lines_separator:
  "heading_lines (a @ separator @ b) = heading_lines a @ heading_lines b"
proof -
  have rule: "heading_lines (ascii ''==='') = []"
    by (subst heading_lines_line) (simp_all add: ascii_def)
  have "heading_lines (a @ NL # NL # ascii ''==='' @ NL # NL # b) =
      heading_lines a @ heading_lines b"
    by (simp add: heading_lines_NL heading_lines_NL_start rule)
  then show ?thesis by (simp add: separator_def)
qed

text \<open>The titles that the pattern of the merge step finds are the texts of the heading
  lines that hold more than the mark.\<close>

lemma findall_headings_lines:
  "findall_headings s = map (drop 3) (filter (\<lambda>l. drop 3 l \<noteq> []) (heading_lines s))"
proof -
  have "List.map_filter heading_of_line ls =
      map (drop 3) (filter (\<lambda>l. drop 3 l \<noteq> []) (filter (\<lambda>l. take 3 l = ascii ''## '') ls))"
    for ls
    by (induction ls) (simp_all add: List.map_filter_simps heading_of_line_def)
  then show ?thesis by (simp add: findall_headings_def heading_lines_def)
qed

lemma heading_line_found:
  assumes "ascii ''## '' @ t \<in> set (heading_lines s)" and "t \<noteq> []"
  shows "t \<in> set (findall_headings s)"
proof -
  have "drop 3 (ascii ''## '' @ t) = t" by (simp add: ascii_def)
  with assms have "t \<in> drop 3 ` {l \<in> set (heading_lines s). drop 3 l \<noteq> []}"
    by force
  then show ?thesis by (simp add: findall_headings_lines)
qed

lemma rstrip_Nil: "rstrip [] = []"
  by (simp add: rstrip_def rstrip_chars_def)

lemma rstrip_snoc: "rstrip (s @ [c]) = (if isspace c then rstrip s else s @ [c])"
  by (simp add: rstrip_def rstrip_chars_def)

lemma rstrip_keep: "s \<noteq> [] \<Longrightarrow> \<not> isspace (last s) \<Longrightarrow> rstrip s = s"
  by (cases s rule: rev_cases) (simp_all add: rstrip_snoc)

lemma rstrip_append:
  "rstrip ys \<noteq> [] \<Longrightarrow> rstrip (xs @ ys) = xs @ rstrip ys"
proof (induction ys rule: rev_induct)
  case Nil
  then show ?case by (simp add: rstrip_Nil)
next
  case (snoc c ys)
  show ?case
  proof (cases "isspace c")
    case True
    with snoc.prems have "rstrip ys \<noteq> []" by (simp add: rstrip_snoc)
    from snoc.IH [OF this] True show ?thesis
      using rstrip_snoc [of "xs @ ys" c] by (simp add: rstrip_snoc)
  next
    case False
    then show ?thesis using rstrip_snoc [of "xs @ ys" c] by (simp add: rstrip_snoc)
  qed
qed

lemma rstrip_spaces: "list_all isspace w \<Longrightarrow> rstrip (s @ w) = rstrip s"
proof (induction w rule: rev_induct)
  case Nil
  then show ?case by simp
next
  case (snoc c w)
  then show ?case using rstrip_snoc [of "s @ w" c] by simp
qed

lemma set_rstrip: "set (rstrip s) \<subseteq> set s"
  unfolding rstrip_def rstrip_chars_def
  by (metis set_dropWhileD set_rev subsetI)

lemma isspace_NL: "isspace NL"
  by (simp add: isspace_def)

lemma not_isspace_hash: "\<not> isspace 35"
  by (simp add: isspace_def)

lemma rstrip_hash_nonempty: "rstrip (35 # s) \<noteq> []"
proof (induction s rule: rev_induct)
  case Nil
  then show ?case using rstrip_snoc [of "[]" 35] by (simp add: not_isspace_hash)
next
  case (snoc c s)
  then show ?case using rstrip_snoc [of "35 # s" c] by simp
qed

lemma join_snoc:
  "join sep (xs @ [y]) = (if xs = [] then y else join sep xs @ sep @ y)"
  by (induction sep xs rule: join.induct) auto

lemma set_join: "set (join sep xs) \<subseteq> set sep \<union> \<Union> (set ` set xs)"
  by (induction sep xs rule: join.induct) auto

lemma entry_text_lines:
  assumes "NL \<notin> set (re_title e)"
  shows "heading_lines (entry_text e) =
           (ascii ''## '' @ re_title e) # heading_lines (re_content e)"
proof -
  have "entry_text e = (ascii ''## '' @ re_title e) @ NL # NL # re_content e"
    by (simp add: entry_text_def)
  then have "heading_lines (entry_text e) =
      heading_lines (ascii ''## '' @ re_title e) @ heading_lines (re_content e)"
    by (simp only: heading_lines_NL heading_lines_NL_start)
  then show ?thesis
    using heading_lines_heading [OF assms] by simp
qed

lemma entry_text_rstrip_nonempty: "rstrip (entry_text e @ x) \<noteq> []"
  using rstrip_hash_nonempty by (simp add: entry_text_def ascii_def)

text \<open>The last part of a written file, with the final newline.\<close>

lemma entry_text_stable:
  assumes "clean_entry e"
  shows "heading_lines (rstrip (entry_text e @ [NL])) = heading_lines (entry_text e @ [NL])"
proof -
  have r: "rstrip (entry_text e @ [NL]) = rstrip (entry_text e)"
    by (simp add: rstrip_snoc isspace_NL)
  show ?thesis
  proof (cases "re_content e = []")
    case False
    with assms have "\<not> isspace (last (re_content e))" by (simp add: clean_entry_def)
    with False have "\<not> isspace (last (entry_text e))" "entry_text e \<noteq> []"
      by (simp_all add: entry_text_def)
    then have "rstrip (entry_text e) = entry_text e" by (simp add: rstrip_keep)
    then show ?thesis unfolding r by (simp add: heading_lines_NL_end)
  next
    case True
    note c = this
    from assms have t: "re_title e \<noteq> []" "\<not> isspace (last (re_title e))"
      by (simp_all add: clean_entry_def)
    then have k: "rstrip (ascii ''## '' @ re_title e) = ascii ''## '' @ re_title e"
      by (intro rstrip_keep) simp_all
    have "entry_text e = (ascii ''## '' @ re_title e) @ [NL] @ [NL]"
      by (simp add: entry_text_def c)
    then have "rstrip (entry_text e) = ascii ''## '' @ re_title e"
      using k rstrip_spaces [of "[NL] @ [NL]" "ascii ''## '' @ re_title e"]
      by (simp add: isspace_NL)
    moreover have "heading_lines (entry_text e @ [NL]) =
        heading_lines (ascii ''## '' @ re_title e)"
    proof -
      have "entry_text e @ [NL] = (ascii ''## '' @ re_title e) @ NL # NL # NL # []"
        by (simp add: entry_text_def c)
      then show ?thesis
        by (simp only: heading_lines_NL heading_lines_NL_start heading_lines_Nil
            append_Nil2)
    qed
    ultimately show ?thesis unfolding r by simp
  qed
qed

section \<open>One weekly file\<close>

lemma join_entry_lines:
  "\<forall>e \<in> set es. NL \<notin> set (re_title e) \<Longrightarrow>
   heading_lines (join separator (map entry_text es)) =
     concat (map (\<lambda>e. heading_lines (entry_text e)) es)"
proof (induction es)
  case Nil
  then show ?case by (simp add: heading_lines_Nil)
next
  case (Cons e es)
  show ?case
  proof (cases es)
    case Nil
    then show ?thesis by simp
  next
    case (Cons e' es')
    then have "join separator (map entry_text (e # es)) =
        entry_text e @ separator @ join separator (map entry_text es)" by simp
    then show ?thesis using Cons.IH Cons.prems by (simp add: heading_lines_separator)
  qed
qed

lemma clean_entry_lines:
  "clean_entry e \<Longrightarrow> heading_lines (entry_text e) = [ascii ''## '' @ re_title e]"
  by (simp add: clean_entry_def entry_text_lines)

lemma join_clean_lines:
  assumes "list_all clean_entry es"
  shows "heading_lines (join separator (map entry_text es)) =
           map (\<lambda>e. ascii ''## '' @ re_title e) es"
proof -
  have nl: "\<forall>e \<in> set es. NL \<notin> set (re_title e)"
    using assms by (simp add: list_all_iff clean_entry_def)
  have "concat (map (\<lambda>e. heading_lines (entry_text e)) es) =
      map (\<lambda>e. ascii ''## '' @ re_title e) es"
    using assms by (induction es) (simp_all add: clean_entry_lines)
  then show ?thesis using join_entry_lines [OF nl] by simp
qed

lemma merge_week_eq:
  "merge_week old es =
     (if new_entries old es = [] then None
      else Some (kept old @ join separator (map entry_text (new_entries old es)) @ [NL]))"
  by (simp add: merge_week_def new_entries_def kept_def Let_def)

lemma kept_ends: "kept old = [] \<or> last (kept old) = NL"
  by (simp add: kept_def separator_def)

lemma kept_lines: "heading_lines (kept old) = heading_lines (rstrip old)"
proof (cases "old = []")
  case True
  then show ?thesis by (simp add: kept_def rstrip_Nil)
next
  case False
  then show ?thesis
    using heading_lines_separator [of "rstrip old" "[]"]
    by (simp add: kept_def heading_lines_Nil)
qed

lemma written_lines:
  assumes "list_all clean_entry ne"
  shows "heading_lines (kept old @ join separator (map entry_text ne) @ [NL]) =
           heading_lines (rstrip old) @ map (\<lambda>e. ascii ''## '' @ re_title e) ne"
proof -
  have "heading_lines (kept old @ join separator (map entry_text ne) @ [NL]) =
      heading_lines (kept old) @ heading_lines (join separator (map entry_text ne) @ [NL])"
    using kept_ends by (rule heading_lines_after_NL)
  then show ?thesis
    by (simp add: kept_lines heading_lines_NL_end join_clean_lines [OF assms])
qed

lemma written_rstrip_lines:
  assumes "list_all clean_entry ne" and "ne \<noteq> []"
  shows "heading_lines (rstrip (kept old @ join separator (map entry_text ne) @ [NL])) =
           heading_lines (kept old @ join separator (map entry_text ne) @ [NL])"
proof -
  from assms(2) obtain ne' e where ne: "ne = ne' @ [e]"
    by (metis append_butlast_last_id)
  define W where "W = kept old @
      (if ne' = [] then [] else join separator (map entry_text ne') @ separator)"
  have W: "W = [] \<or> last W = NL"
    using kept_ends [of old] by (auto simp: W_def separator_def)
  have shape: "kept old @ join separator (map entry_text ne) @ [NL] = W @ (entry_text e @ [NL])"
    by (simp add: ne W_def join_snoc)
  have e: "clean_entry e" using assms(1) by (simp add: ne)
  have "rstrip (W @ (entry_text e @ [NL])) = W @ rstrip (entry_text e @ [NL])"
    by (rule rstrip_append) (rule entry_text_rstrip_nonempty)
  then have "heading_lines (rstrip (W @ (entry_text e @ [NL]))) =
      heading_lines W @ heading_lines (rstrip (entry_text e @ [NL]))"
    using heading_lines_after_NL [OF W] by simp
  also have "\<dots> = heading_lines W @ heading_lines (entry_text e @ [NL])"
    by (simp add: entry_text_stable [OF e])
  also have "\<dots> = heading_lines (W @ (entry_text e @ [NL]))"
    using heading_lines_after_NL [OF W] by simp
  finally show ?thesis unfolding shape .
qed

text \<open>What is written holds no carriage return, so it is read back as it is.\<close>

lemma entry_text_no_CR: "clean_entry e \<Longrightarrow> 13 \<notin> set (entry_text e)"
  by (simp add: clean_entry_def entry_text_def ascii_def)

lemma written_no_CR:
  assumes "13 \<notin> set old" and "list_all clean_entry ne"
  shows "13 \<notin> set (kept old @ join separator (map entry_text ne) @ [NL])"
proof -
  have k: "13 \<notin> set (kept old)"
    using assms(1) set_rstrip [of old] by (auto simp: kept_def separator_def ascii_def)
  have s: "13 \<notin> set separator" by (simp add: separator_def ascii_def)
  have "\<forall>x \<in> set (map entry_text ne). 13 \<notin> set x"
    using assms(2) entry_text_no_CR by (auto simp: list_all_iff)
  with s have "13 \<notin> set (join separator (map entry_text ne))"
    using set_join [of separator "map entry_text ne"] by blast
  with k show ?thesis by simp
qed

lemma distinct_heading_lines:
  "distinct (map (\<lambda>e. ascii ''## '' @ re_title e) es) \<longleftrightarrow> distinct (map re_title es)"
proof -
  have "map (\<lambda>e. ascii ''## '' @ re_title e) es = map ((@) (ascii ''## '')) (map re_title es)"
    by simp
  moreover have "inj_on ((@) (ascii ''## '')) (set (map re_title es))"
    by (simp add: inj_on_def)
  ultimately show ?thesis by (simp only: distinct_map) blast
qed

lemma merge_week_stable:
  assumes old: "stable_text old" and cr: "13 \<notin> set old"
    and clean: "list_all clean_entry es"
    and dist: "distinct (map re_title es)"
    and new: "merge_week old es = Some new"
  shows "stable_file new"
proof -
  let ?ne = "new_entries old es"
  from new have ne: "?ne \<noteq> []"
    and eq: "new = kept old @ join separator (map entry_text ?ne) @ [NL]"
    by (auto simp: merge_week_eq split: if_splits)
  have c: "list_all clean_entry ?ne"
    using clean by (simp add: new_entries_def list_all_iff)
  have h: "heading_lines new =
      heading_lines old @ map (\<lambda>e. ascii ''## '' @ re_title e) ?ne"
    unfolding eq written_lines [OF c] using old by (simp add: stable_text_def)
  have "distinct (map re_title ?ne)"
    using dist by (simp add: new_entries_def distinct_map_filter)
  then have d1: "distinct (map (\<lambda>e. ascii ''## '' @ re_title e) ?ne)"
    by (simp only: distinct_heading_lines)
  have d2: "set (heading_lines old) \<inter> set (map (\<lambda>e. ascii ''## '' @ re_title e) ?ne) = {}"
  proof (rule ccontr)
    assume "set (heading_lines old) \<inter> set (map (\<lambda>e. ascii ''## '' @ re_title e) ?ne) \<noteq> {}"
    then obtain e where e: "e \<in> set ?ne"
      and l: "ascii ''## '' @ re_title e \<in> set (heading_lines old)"
      by auto
    from e c have "re_title e \<noteq> []" by (simp add: list_all_iff clean_entry_def)
    from heading_line_found [OF l this] have "re_title e \<in> set (findall_headings old)" .
    moreover from e have "re_title e \<notin> set (findall_headings old)"
      by (simp add: new_entries_def)
    ultimately show False by blast
  qed
  have "distinct (heading_lines new)"
    unfolding h using old d1 d2 by (simp add: stable_text_def)
  moreover have "heading_lines (rstrip new) = heading_lines new"
    unfolding eq by (rule written_rstrip_lines [OF c ne])
  ultimately have "stable_text new" by (simp add: stable_text_def)
  moreover have "read_text new = new"
    unfolding eq by (rule read_text_id) (rule written_no_CR [OF cr c])
  ultimately show ?thesis by (simp add: stable_file_def)
qed

section \<open>Runs of the merge step\<close>

lemma add_to_group_keys:
  "map fst (add_to_group l e groups) =
     (if l \<in> set (map fst groups) then map fst groups else map fst groups @ [l])"
  by (induction groups) force+

lemma add_to_group_map_of:
  "map_of (add_to_group l e groups) =
     (map_of groups)(l \<mapsto> (case map_of groups l of None \<Rightarrow> [e] | Some es \<Rightarrow> es @ [e]))"
proof (induction groups)
  case Nil
  then show ?case by simp
next
  case (Cons g groups)
  obtain k es where g: "g = (k, es)" by (cases g)
  show ?case
  proof (cases "k = l")
    case True
    then show ?thesis by (auto simp: g intro!: ext)
  next
    case False
    then show ?thesis using Cons.IH by (auto simp: g intro!: ext)
  qed
qed

lemma grouped_add:
  assumes "grouped week_label seen groups" and "week_label (re_source_date e) = Some l"
  shows "grouped week_label (seen @ [e]) (add_to_group l e groups)"
proof -
  from assms(1) have d: "distinct (map fst groups)"
    and m: "\<And>k. map_of groups k =
        (if bound_for week_label k seen = [] then None else Some (bound_for week_label k seen))"
    by (simp_all add: grouped_def)
  have d': "distinct (map fst (add_to_group l e groups))"
    using d by (simp add: add_to_group_keys)
  have "map_of (add_to_group l e groups) k =
      (if bound_for week_label k (seen @ [e]) = [] then None
       else Some (bound_for week_label k (seen @ [e])))" for k
    using assms(2) by (simp add: add_to_group_map_of m bound_for_def)
  with d' show ?thesis by (simp add: grouped_def)
qed

lemma group_by_week_grouped:
  "grouped week_label seen groups \<Longrightarrow>
   group_by_week week_label entries groups = Inr week_groups \<Longrightarrow>
   grouped week_label (seen @ entries) week_groups"
proof (induction entries arbitrary: seen groups)
  case Nil
  then show ?case by simp
next
  case (Cons e entries)
  from Cons.prems(2) obtain l where l: "week_label (re_source_date e) = Some l"
    and r: "group_by_week week_label entries (add_to_group l e groups) = Inr week_groups"
    by (auto split: option.splits)
  from Cons.IH [OF grouped_add [OF Cons.prems(1) l] r] show ?case by simp
qed

lemma grouped_Nil: "grouped week_label [] []"
  by (simp add: grouped_def bound_for_def)

lemma merge_groups:
  assumes "group_by_week week_label entries [] = Inr week_groups"
  shows "distinct (map fst week_groups)"
    and "(l, es) \<in> set week_groups \<Longrightarrow> es = bound_for week_label l entries"
    and "l \<notin> fst ` set week_groups \<Longrightarrow> bound_for week_label l entries = []"
proof -
  from group_by_week_grouped [OF grouped_Nil assms]
  have g: "grouped week_label entries week_groups" by simp
  then show d: "distinct (map fst week_groups)" by (simp add: grouped_def)
  from g have m: "map_of week_groups l =
      (if bound_for week_label l entries = [] then None
       else Some (bound_for week_label l entries))"
    by (simp add: grouped_def)
  show "es = bound_for week_label l entries" if "(l, es) \<in> set week_groups"
  proof -
    from that d have "map_of week_groups l = Some es" by simp
    with m show ?thesis by (auto split: if_splits)
  qed
  show "bound_for week_label l entries = []" if "l \<notin> fst ` set week_groups"
  proof -
    from that have "map_of week_groups l = None" by (simp add: map_of_eq_None_iff)
    with m show ?thesis by (auto split: if_splits)
  qed
qed

lemma read_week_no_CR: "13 \<notin> set (read_week fs l)"
  by (simp add: read_week_def read_text_no_CR split: option.splits)

lemma stable_text_Nil: "stable_text []"
  by (simp add: stable_text_def rstrip_Nil heading_lines_Nil)

lemma read_week_stable: "vault_ok fs \<Longrightarrow> stable_text (read_week fs l)"
  by (auto simp: vault_ok_def read_week_def stable_file_def stable_text_Nil
      split: option.splits)

lemma merge_loop_Cons:
  "merge_loop ((l, es) # groups) fs =
     (case merge_week (read_week fs l) es of
        None \<Rightarrow> merge_loop groups fs
      | Some new_content \<Rightarrow>
          (l # fst (merge_loop groups (fs(l \<mapsto> new_content))),
           snd (merge_loop groups (fs(l \<mapsto> new_content)))))"
  by (simp add: read_week_def split: option.splits prod.splits)

declare merge_loop.simps(2) [simp del]

lemma merge_loop_ok:
  "vault_ok fs \<Longrightarrow>
   \<forall>(l, es) \<in> set groups. list_all clean_entry es \<and> distinct (map re_title es) \<Longrightarrow>
   vault_ok (snd (merge_loop groups fs))"
proof (induction groups arbitrary: fs)
  case Nil
  then show ?case by simp
next
  case (Cons g groups)
  obtain l es where g: "g = (l, es)" by (cases g)
  from Cons.prems(2) have es: "list_all clean_entry es" "distinct (map re_title es)"
    and rest: "\<forall>(l, es) \<in> set groups. list_all clean_entry es \<and> distinct (map re_title es)"
    by (simp_all add: g)
  show ?case
  proof (cases "merge_week (read_week fs l) es")
    case None
    then show ?thesis using Cons.IH [OF Cons.prems(1) rest] by (simp add: g merge_loop_Cons)
  next
    case (Some new)
    from merge_week_stable [OF read_week_stable [OF Cons.prems(1)] read_week_no_CR es Some]
    have "stable_file new" .
    then have "vault_ok (fs(l \<mapsto> new))"
      using Cons.prems(1) by (simp add: vault_ok_def)
    then have "vault_ok (snd (merge_loop groups (fs(l \<mapsto> new))))"
      using rest by (rule Cons.IH)
    then show ?thesis by (simp only: g merge_loop_Cons Some option.case snd_conv)
  qed
qed

lemma run_ok_bound:
  assumes "run_ok week_label entries"
  shows "list_all clean_entry (bound_for week_label l entries)"
    and "distinct (map re_title (bound_for week_label l entries))"
  using assms by (simp_all add: run_ok_def bound_for_def list_all_iff)

lemma vault_after_ok:
  assumes "vault_ok fs" and "run_ok week_label entries"
  shows "vault_ok (vault_after week_label fs entries)"
proof (cases "group_by_week week_label entries []")
  case (Inl e)
  then show ?thesis using assms(1) by (simp add: vault_after_def merge_to_shared_posts_def)
next
  case (Inr week_groups)
  have "\<forall>(l, es) \<in> set week_groups. list_all clean_entry es \<and> distinct (map re_title es)"
    using merge_groups(2) [OF Inr] run_ok_bound [OF assms(2)] by auto
  from merge_loop_ok [OF assms(1) this] show ?thesis
    by (cases "merge_loop week_groups fs")
      (simp add: vault_after_def merge_to_shared_posts_def Inr)
qed

lemma merge_loop_other:
  "l \<notin> fst ` set groups \<Longrightarrow>
   l \<notin> set (fst (merge_loop groups fs)) \<and> snd (merge_loop groups fs) l = fs l"
proof (induction groups arbitrary: fs)
  case Nil
  then show ?case by simp
next
  case (Cons g groups)
  obtain k es where g: "g = (k, es)" by (cases g)
  from Cons.prems have k: "k \<noteq> l" and rest: "l \<notin> fst ` set groups" by (auto simp: g)
  show ?case
  proof (cases "merge_week (read_week fs k) es")
    case None
    then show ?thesis using Cons.IH [OF rest, of fs] by (simp add: g merge_loop_Cons)
  next
    case (Some new)
    have ih: "l \<notin> set (fst (merge_loop groups (fs(k \<mapsto> new)))) \<and>
        snd (merge_loop groups (fs(k \<mapsto> new))) l = (fs(k \<mapsto> new)) l"
      using rest by (rule Cons.IH)
    have upd: "(fs(k \<mapsto> new)) l = fs l" using k by simp
    have fin: "l \<notin> set (k # fst (merge_loop groups (fs(k \<mapsto> new)))) \<and>
        snd (merge_loop groups (fs(k \<mapsto> new))) l = fs l"
      using ih k unfolding upd by (simp only: set_simps insert_iff) blast
    show ?thesis
      by (simp only: g merge_loop_Cons Some option.case fst_conv snd_conv) (rule fin)
  qed
qed

lemma merge_loop_file:
  "distinct (map fst groups) \<Longrightarrow> (l, es) \<in> set groups \<Longrightarrow>
   (l \<in> set (fst (merge_loop groups fs)) \<longleftrightarrow> merge_week (read_week fs l) es \<noteq> None) \<and>
   snd (merge_loop groups fs) l =
     (case merge_week (read_week fs l) es of None \<Rightarrow> fs l | Some new \<Rightarrow> Some new)"
proof (induction groups arbitrary: fs)
  case Nil
  then show ?case by simp
next
  case (Cons g groups)
  obtain k es' where g: "g = (k, es')" by (cases g)
  from Cons.prems(1) have d: "distinct (map fst groups)" and kn: "k \<notin> fst ` set groups"
    by (simp_all add: g)
  show ?case
  proof (cases "(l, es) = (k, es')")
    case True
    then have eq: "k = l" "es' = es" by simp_all
    from kn have ln: "l \<notin> fst ` set groups" by (simp add: eq)
    show ?thesis
    proof (cases "merge_week (read_week fs l) es")
      case None
      then show ?thesis using merge_loop_other [OF ln, of fs]
        by (simp add: g eq merge_loop_Cons)
    next
      case (Some new)
      have o: "snd (merge_loop groups (fs(l \<mapsto> new))) l = (fs(l \<mapsto> new)) l"
        using merge_loop_other [OF ln, of "fs(l \<mapsto> new)"] by (rule conjunct2)
      have upd: "(fs(l \<mapsto> new)) l = Some new" by simp
      have fin: "(l \<in> set (l # fst (merge_loop groups (fs(l \<mapsto> new)))) \<longleftrightarrow>
              Some new \<noteq> None) \<and>
            snd (merge_loop groups (fs(l \<mapsto> new))) l = Some new"
        using o unfolding upd by (simp only: set_simps insert_iff) blast
      show ?thesis
        by (simp only: g eq merge_loop_Cons Some option.case fst_conv snd_conv) (rule fin)
    qed
  next
    case False
    with Cons.prems(2) have mem: "(l, es) \<in> set groups" by (auto simp: g)
    with kn have kl: "k \<noteq> l" by force
    show ?thesis
    proof (cases "merge_week (read_week fs k) es'")
      case None
      then show ?thesis using Cons.IH [OF d mem, of fs] by (simp add: g merge_loop_Cons)
    next
      case (Some new)
      have r: "read_week (fs(k \<mapsto> new)) l = read_week fs l"
        using kl by (simp add: read_week_def)
      have upd: "(fs(k \<mapsto> new)) l = fs l" using kl by simp
      have ih: "(l \<in> set (fst (merge_loop groups (fs(k \<mapsto> new)))) \<longleftrightarrow>
              merge_week (read_week fs l) es \<noteq> None) \<and>
            snd (merge_loop groups (fs(k \<mapsto> new))) l =
              (case merge_week (read_week fs l) es of None \<Rightarrow> fs l | Some new \<Rightarrow> Some new)"
        using Cons.IH [OF d mem, of "fs(k \<mapsto> new)"] unfolding r upd .
      have fin: "(l \<in> set (k # fst (merge_loop groups (fs(k \<mapsto> new)))) \<longleftrightarrow>
              merge_week (read_week fs l) es \<noteq> None) \<and>
            snd (merge_loop groups (fs(k \<mapsto> new))) l =
              (case merge_week (read_week fs l) es of None \<Rightarrow> fs l | Some new \<Rightarrow> Some new)"
        using ih kl by (simp only: set_simps insert_iff) blast
      show ?thesis
        by (simp only: g merge_loop_Cons Some option.case fst_conv snd_conv) (rule fin)
    qed
  qed
qed

text \<open>One run, file by file.\<close>

lemma merge_run:
  assumes "merge_to_shared_posts week_label entries fs = Inr (written, fs')"
  shows "(l \<in> set written \<longleftrightarrow>
            new_entries (read_week fs l) (bound_for week_label l entries) \<noteq> []) \<and>
         fs' l =
           (if new_entries (read_week fs l) (bound_for week_label l entries) = [] then fs l
            else Some (kept (read_week fs l) @
                   join separator
                     (map entry_text
                        (new_entries (read_week fs l) (bound_for week_label l entries))) @
                   [NL]))"
proof -
  from assms obtain week_groups where
    g: "group_by_week week_label entries [] = Inr week_groups"
    and m: "merge_loop week_groups fs = (written, fs')"
    by (auto simp: merge_to_shared_posts_def split: sum.splits)
  show ?thesis
  proof (cases "l \<in> fst ` set week_groups")
    case False
    from merge_groups(3) [OF g False]
    have "new_entries (read_week fs l) (bound_for week_label l entries) = []"
      by (simp add: new_entries_def)
    with merge_loop_other [OF False, of fs] m show ?thesis by simp
  next
    case True
    then obtain es where mem: "(l, es) \<in> set week_groups" by auto
    then have es: "es = bound_for week_label l entries" by (rule merge_groups(2) [OF g])
    from merge_loop_file [OF merge_groups(1) [OF g] mem, of fs]
    have w: "l \<in> set written \<longleftrightarrow> merge_week (read_week fs l) es \<noteq> None"
      and f: "fs' l =
        (case merge_week (read_week fs l) es of None \<Rightarrow> fs l | Some new \<Rightarrow> Some new)"
      using m by simp_all
    show ?thesis using w f unfolding es by (simp add: merge_week_eq)
  qed
qed

text \<open>
  Claim C9, as amended. When \<open>merge_to_shared_posts\<close> returns, a weekly file that existed
  and is not among the written paths is unchanged. A file that existed and was written
  holds the text that was read from it (the previous content, with every \<^verbatim>\<open>\r\n\<close> and
  \<^verbatim>\<open>\r\<close> read as \<^verbatim>\<open>\n\<close>) with the white space at its end removed (\<^verbatim>\<open>rstrip\<close>), then the
  separator \<^verbatim>\<open>"\n\n===\n\n"\<close> (when the text read was not empty), then the new entries of
  that week joined by the separator, then a newline. So the text read, stripped at its
  end, is a prefix of the new content; for a previous content without \<^verbatim>\<open>\r\<close> that is the
  previous content itself, stripped at its end.
\<close>

theorem merge_appends_below:
  assumes "merge_to_shared_posts week_label entries fs = Inr (written, fs')"
    and "fs l = Some old"
  shows "(l \<notin> set written \<longrightarrow> fs' l = Some old) \<and>
         (l \<in> set written \<longrightarrow>
            new_entries (read_text old) (bound_for week_label l entries) \<noteq> [] \<and>
            fs' l = Some (kept (read_text old) @
               join separator
                 (map entry_text (new_entries (read_text old) (bound_for week_label l entries)))
               @ [NL]) \<and>
            prefix (rstrip (read_text old)) (the (fs' l)) \<and>
            (13 \<notin> set old \<longrightarrow> prefix (rstrip old) (the (fs' l))))"
proof -
  have r: "read_week fs l = read_text old" using assms(2) by (simp add: read_week_def)
  let ?ne = "new_entries (read_text old) (bound_for week_label l entries)"
  let ?new = "kept (read_text old) @ join separator (map entry_text ?ne) @ [NL]"
  from merge_run [OF assms(1), of l]
  have w: "l \<in> set written \<longleftrightarrow> ?ne \<noteq> []"
    and f: "fs' l = (if ?ne = [] then fs l else Some ?new)"
    unfolding r by simp_all
  have p: "prefix (rstrip (read_text old)) ?new"
    by (simp add: kept_def rstrip_Nil)
  have q: "13 \<notin> set old \<longrightarrow> prefix (rstrip old) ?new"
  proof
    assume "13 \<notin> set old"
    then have "read_text old = old" by (rule read_text_id)
    with p show "prefix (rstrip old) ?new" by (simp only:)
  qed
  show ?thesis
  proof (cases "?ne = []")
    case True
    then show ?thesis using w f assms(2) by simp
  next
    case False
    then have "fs' l = Some ?new" using f by simp
    then show ?thesis using w False p q by simp
  qed
qed

text \<open>
  Claim C1, as amended. A run appends to a weekly file the entries bound for it whose
  titles the pattern \<^verbatim>\<open>^## (.+)$\<close> does not find in the text read from the file when the
  run starts; an entry whose title it finds there is skipped, and a file without a new
  entry is not written. Let the heading lines read from every file of the vault be
  pairwise distinct and such that \<^verbatim>\<open>rstrip\<close> leaves them alone (\<open>vault_ok\<close>; an empty vault
  is), and let every run's input be as the result parser makes it (no \<^verbatim>\<open>\r\<close>, titles of
  one line, titles and contents stripped) with titles that are not empty, no content line
  that begins with \<^verbatim>\<open>"## "\<close>, and pairwise distinct titles among the entries bound for one
  week (\<open>run_ok\<close>). Then after any number of runs no file holds two equal heading lines.
\<close>

theorem no_duplicate_headings:
  assumes "vault_ok fs" and "list_all (run_ok week_label) runs"
  shows "vault_ok (foldl (vault_after week_label) fs runs) \<and>
         (\<forall>l c. foldl (vault_after week_label) fs runs l = Some c \<longrightarrow>
            distinct (heading_lines (read_text c))) \<and>
         (\<forall>entries before written after l.
            merge_to_shared_posts week_label entries before = Inr (written, after) \<longrightarrow>
              (l \<in> set written \<longleftrightarrow>
                 new_entries (read_week before l) (bound_for week_label l entries) \<noteq> []) \<and>
              after l =
                (if new_entries (read_week before l) (bound_for week_label l entries) = []
                 then before l
                 else Some (kept (read_week before l) @
                        join separator
                          (map entry_text
                             (new_entries (read_week before l)
                                (bound_for week_label l entries))) @
                        [NL])))"
proof -
  have "vault_ok (foldl (vault_after week_label) fs runs)"
    using assms
  proof (induction runs arbitrary: fs)
    case Nil
    then show ?case by simp
  next
    case (Cons r runs)
    from Cons.prems have "vault_ok (vault_after week_label fs r)"
      by (simp add: vault_after_ok)
    with Cons show ?case by simp
  qed
  moreover from this have "\<forall>l c. foldl (vault_after week_label) fs runs l = Some c \<longrightarrow>
      distinct (heading_lines (read_text c))"
    by (auto simp: vault_ok_def stable_file_def stable_text_def)
  ultimately show ?thesis using merge_run [where week_label = week_label] by blast
qed

section \<open>The merge step at sample inputs\<close>

lemmas week_eval = iso_week_label_def fromisoformat_def digit_def isocalendar_def
  isoweek1monday_def ymd2ord_def days_before_month_def days_before_year_def
  days_in_month_def is_leap_def str_nat.simps

lemmas merge_eval = merge_to_shared_posts_def merge_loop.simps merge_week_def
  findall_headings_def split_on_def List.map_filter_simps heading_of_line_def
  separator_def entry_text_def rstrip_def rstrip_chars_def isspace_def entry_def ascii_def
  heading_lines_def read_week_def

text \<open>
  Claim C1 as stated fails when one run's input carries the same title twice for one week:
  the titles are compared with the headings read from the file before the run, so both
  entries are appended.
\<close>

theorem same_title_twice_in_one_run:
  "merge_to_shared_posts iso_week_label
     [entry ''Foo'' ''one'' ''2024-05-01'', entry ''Foo'' ''two'' ''2024-05-02''] Map.empty =
   Inr ([ascii ''Week 18 - 2024''],
        [ascii ''Week 18 - 2024'' \<mapsto>
           ascii ''## Foo'' @ [NL, NL] @ ascii ''one'' @ separator @
           ascii ''## Foo'' @ [NL, NL] @ ascii ''two'' @ [NL]]) \<and>
   findall_headings (ascii ''## Foo'' @ [NL, NL] @ ascii ''one'' @ separator @
           ascii ''## Foo'' @ [NL, NL] @ ascii ''two'' @ [NL]) = [ascii ''Foo'', ascii ''Foo'']"
  by (simp add: merge_eval week_eval)

text \<open>
  What is asked of the entries of a run is needed. A content with a line that begins with
  the heading mark, a title with white space at its end (after an entry without content),
  and a content with a carriage return in front of the heading mark each leave two equal
  heading lines in a file.
\<close>

lemma run_conditions_needed:
  "heading_lines (read_text (the (vault_after iso_week_label Map.empty
       [\<lparr>re_title = ascii ''A'', re_content = ascii ''x'' @ [NL] @ ascii ''## B'',
          re_source_date = ascii ''2024-05-01''\<rparr>,
        entry ''B'' ''y'' ''2024-05-01''] week18))) =
     [ascii ''## A'', ascii ''## B'', ascii ''## B''] \<and>
   heading_lines (read_text (the (foldl (vault_after iso_week_label) Map.empty
       [[entry ''T '' [] ''2024-05-01''], [entry ''T'' ''y'' ''2024-05-01'']] week18))) =
     [ascii ''## T'', ascii ''## T''] \<and>
   heading_lines (read_text (the (vault_after iso_week_label Map.empty
       [\<lparr>re_title = ascii ''T'', re_content = ascii ''a'' @ [13] @ ascii ''## T'',
          re_source_date = ascii ''2024-05-01''\<rparr>] week18))) =
     [ascii ''## T'', ascii ''## T'']"
  by (simp add: vault_after_def week18_def merge_eval week_eval)

lemma sample_runs_ok: "list_all (run_ok iso_week_label) sample_runs"
  by (auto simp: sample_runs_def run_ok_def bound_for_def clean_entry_def merge_eval week_eval)

lemma sample_runs_result:
  "foldl (vault_after iso_week_label) Map.empty sample_runs week18 =
     Some (ascii ''## Foo'' @ [NL, NL] @ ascii ''one'' @ separator @
           ascii ''## Baz'' @ [NL, NL] @ ascii ''three'' @ [NL])"
  by (simp add: sample_runs_def vault_after_def week18_def merge_eval week_eval)

lemma sample_runs_lines:
  "heading_lines (read_text (ascii ''## Foo'' @ [NL, NL] @ ascii ''one'' @ separator @
           ascii ''## Baz'' @ [NL, NL] @ ascii ''three'' @ [NL])) =
     [ascii ''## Foo'', ascii ''## Baz'']"
  by (simp add: merge_eval)

theorem no_duplicate_headings_witness:
  "vault_ok (foldl (vault_after iso_week_label) Map.empty sample_runs) \<and>
   foldl (vault_after iso_week_label) Map.empty sample_runs week18 =
     Some (ascii ''## Foo'' @ [NL, NL] @ ascii ''one'' @ separator @
           ascii ''## Baz'' @ [NL, NL] @ ascii ''three'' @ [NL]) \<and>
   heading_lines (read_text (ascii ''## Foo'' @ [NL, NL] @ ascii ''one'' @ separator @
           ascii ''## Baz'' @ [NL, NL] @ ascii ''three'' @ [NL])) =
     [ascii ''## Foo'', ascii ''## Baz''] \<and>
   distinct (heading_lines (read_text (ascii ''## Foo'' @ [NL, NL] @ ascii ''one'' @ separator @
           ascii ''## Baz'' @ [NL, NL] @ ascii ''three'' @ [NL])))"
proof -
  have h1: "vault_ok Map.empty" by (simp add: vault_ok_def)
  from no_duplicate_headings [OF h1 sample_runs_ok] sample_runs_result sample_runs_lines
  show ?thesis by blast
qed

lemma old_week_merge:
  "merge_to_shared_posts iso_week_label [entry ''U'' ''new'' ''2024-05-01''] [week18 \<mapsto> old_week] =
     Inr ([week18],
          [week18 \<mapsto> ascii ''## T'' @ [NL, NL] @ ascii ''old text'' @ separator @
             ascii ''## U'' @ [NL, NL] @ ascii ''new'' @ [NL]])"
  by (simp add: old_week_def week18_def merge_eval week_eval)

theorem merge_appends_below_witness:
  "merge_to_shared_posts iso_week_label [entry ''U'' ''new'' ''2024-05-01''] [week18 \<mapsto> old_week] =
     Inr ([week18],
          [week18 \<mapsto> ascii ''## T'' @ [NL, NL] @ ascii ''old text'' @ separator @
             ascii ''## U'' @ [NL, NL] @ ascii ''new'' @ [NL]]) \<and>
   13 \<notin> set old_week \<and>
   rstrip old_week = ascii ''## T'' @ [NL, NL] @ ascii ''old text'' \<and>
   prefix (rstrip old_week)
     (ascii ''## T'' @ [NL, NL] @ ascii ''old text'' @ separator @
        ascii ''## U'' @ [NL, NL] @ ascii ''new'' @ [NL])"
proof -
  have h2: "[week18 \<mapsto> old_week] week18 = Some old_week" by simp
  have cr: "13 \<notin> set old_week" by (simp add: old_week_def ascii_def)
  have r: "rstrip old_week = ascii ''## T'' @ [NL, NL] @ ascii ''old text''"
    by (simp add: old_week_def rstrip_def rstrip_chars_def isspace_def ascii_def)
  from merge_appends_below [OF old_week_merge h2] cr
  have "prefix (rstrip old_week)
     (the ([week18 \<mapsto> ascii ''## T'' @ [NL, NL] @ ascii ''old text'' @ separator @
             ascii ''## U'' @ [NL, NL] @ ascii ''new'' @ [NL]] week18))"
    by simp
  then show ?thesis using old_week_merge r cr by simp
qed

text \<open>
  Claim C9 as stated fails when the previous content ends in more than its final newline:
  the file written for an entry with an empty content ends in three newlines, and after
  the next run it is no prefix of the new content. It fails as well for a previous content
  with \<^verbatim>\<open>\r\n\<close> line ends, which are written back as \<^verbatim>\<open>\n\<close>.
\<close>

theorem trailing_whitespace_not_kept:
  "merge_to_shared_posts iso_week_label [entry ''T'' [] ''2024-05-01''] Map.empty =
     Inr ([week18], [week18 \<mapsto> ascii ''## T'' @ [NL, NL, NL]]) \<and>
   merge_to_shared_posts iso_week_label [entry ''U'' ''new'' ''2024-05-01'']
       [week18 \<mapsto> ascii ''## T'' @ [NL, NL, NL]] =
     Inr ([week18],
          [week18 \<mapsto> ascii ''## T'' @ separator @ ascii ''## U'' @ [NL, NL] @ ascii ''new'' @ [NL]]) \<and>
   \<not> prefix (ascii ''## T'' @ [NL, NL, NL])
       (ascii ''## T'' @ separator @ ascii ''## U'' @ [NL, NL] @ ascii ''new'' @ [NL]) \<and>
   merge_to_shared_posts iso_week_label [entry ''U'' ''new'' ''2024-05-01'']
       [week18 \<mapsto> ascii ''## T'' @ [13, NL] @ ascii ''old'' @ [13, NL]] =
     Inr ([week18],
          [week18 \<mapsto> ascii ''## T'' @ [NL] @ ascii ''old'' @ separator @
             ascii ''## U'' @ [NL, NL] @ ascii ''new'' @ [NL]]) \<and>
   \<not> prefix (rstrip (ascii ''## T'' @ [13, NL] @ ascii ''old'' @ [13, NL]))
       (ascii ''## T'' @ [NL] @ ascii ''old'' @ separator @
          ascii ''## U'' @ [NL, NL] @ ascii ''new'' @ [NL])"
  by (simp add: week18_def merge_eval week_eval)

text \<open>
  Claim C2 at a failing input. A refined block whose heading holds white space only gives
  a record with the empty title; the heading line written for it is \<^verbatim>\<open>"## "\<close>, which the
  pattern \<^verbatim>\<open>^## (.+)$\<close> does not match, so a second run with the same input appends the
  entry again and returns the path of the file.
\<close>

theorem empty_title_written_again:
  "parse_refined_entries (ascii ''2026-11-03'')
       [''02_twitter.md'' \<mapsto> ascii ''## '' @ [9, NL] @ ascii ''body'']
       [entry_dated (ascii ''2024-05-01'')] =
     Inr ([entry [] ''body'' ''2024-05-01''], []) \<and>
   merge_to_shared_posts iso_week_label [entry [] ''body'' ''2024-05-01''] Map.empty =
     Inr ([week18], [week18 \<mapsto> ascii ''## '' @ [NL, NL] @ ascii ''body'' @ [NL]]) \<and>
   merge_to_shared_posts iso_week_label [entry [] ''body'' ''2024-05-01'']
       [week18 \<mapsto> ascii ''## '' @ [NL, NL] @ ascii ''body'' @ [NL]] =
     Inr ([week18],
          [week18 \<mapsto> ascii ''## '' @ [NL, NL] @ ascii ''body'' @ separator @
             ascii ''## '' @ [NL, NL] @ ascii ''body'' @ [NL]])"
  by (simp add: week18_def merge_eval week_eval parse_refined_entries_def split_blocks_def
      parse_refined_loop.simps str_eval entry_dated_def)

section \<open>Patterns and the strings they match\<close>

lemma re_lit_iff: "re_lit x k s \<longleftrightarrow> (\<exists>b. s = x @ b \<and> k b)"
proof
  assume "re_lit x k s"
  then have "s = x @ drop (length x) s \<and> k (drop (length x) s)"
    by (metis re_lit_def append_take_drop_id)
  then show "\<exists>b. s = x @ b \<and> k b" by blast
next
  assume "\<exists>b. s = x @ b \<and> k b"
  then show "re_lit x k s" by (auto simp: re_lit_def)
qed

lemma re_class_iff: "re_class p k s \<longleftrightarrow> (\<exists>c b. s = c # b \<and> p c \<and> k b)"
  by (cases s) simp_all

lemma re_star_iff: "re_star p k s \<longleftrightarrow> (\<exists>a b. s = a @ b \<and> list_all p a \<and> k b)"
proof (induction s)
  case Nil
  then show ?case by simp
next
  case (Cons c cs)
  show ?case
  proof
    assume "re_star p k (c # cs)"
    then consider "k (c # cs)" | "p c" "re_star p k cs" by auto
    then show "\<exists>a b. c # cs = a @ b \<and> list_all p a \<and> k b"
    proof cases
      case 1
      then have "c # cs = [] @ (c # cs) \<and> list_all p [] \<and> k (c # cs)" by simp
      then show ?thesis by blast
    next
      case 2
      with Cons obtain a b where "cs = a @ b" "list_all p a" "k b" by auto
      with 2 have "c # cs = (c # a) @ b \<and> list_all p (c # a) \<and> k b" by simp
      then show ?thesis by blast
    qed
  next
    assume "\<exists>a b. c # cs = a @ b \<and> list_all p a \<and> k b"
    then obtain a b where ab: "c # cs = a @ b" "list_all p a" "k b" by blast
    show "re_star p k (c # cs)"
    proof (cases a)
      case Nil
      with ab have "k (c # cs)" by simp
      then show ?thesis by simp
    next
      case (Cons x a')
      with ab have "x = c" "cs = a' @ b" "p c" "list_all p a'" by simp_all
      with ab(3) Cons.IH show ?thesis by auto
    qed
  qed
qed

lemma re_search_iff: "re_search m s \<longleftrightarrow> (\<exists>a b. s = a @ b \<and> m b)"
proof (induction s)
  case Nil
  then show ?case by simp
next
  case (Cons c cs)
  show ?case
  proof
    assume "re_search m (c # cs)"
    then consider "m (c # cs)" | "re_search m cs" by auto
    then show "\<exists>a b. c # cs = a @ b \<and> m b"
    proof cases
      case 1
      then have "c # cs = [] @ (c # cs) \<and> m (c # cs)" by simp
      then show ?thesis by blast
    next
      case 2
      with Cons obtain a b where "cs = a @ b" "m b" by auto
      then have "c # cs = (c # a) @ b \<and> m b" by simp
      then show ?thesis by blast
    qed
  next
    assume "\<exists>a b. c # cs = a @ b \<and> m b"
    then obtain a b where ab: "c # cs = a @ b" "m b" by blast
    show "re_search m (c # cs)"
    proof (cases a)
      case Nil
      with ab have "m (c # cs)" by simp
      then show ?thesis by simp
    next
      case (Cons x a')
      with ab have "cs = a' @ b" by simp
      with ab(2) Cons.IH show ?thesis by auto
    qed
  qed
qed

lemma has_share_tag_iff:
  "has_share_tag variant s \<longleftrightarrow>
     (\<exists>a c v d. s = a @ tag_label @ c # v @ share_marker @ d \<and> is_colon c \<and>
        list_all (filler variant) v)"
  unfolding has_share_tag_def re_search_iff re_lit_iff re_class_iff re_star_iff
  by (simp, blast)

lemma list_all_no_NL: "list_all (\<lambda>c. c \<noteq> NL) v \<longleftrightarrow> NL \<notin> set v"
  by (induction v) auto

lemma filler_line: "variant \<noteq> share_to_linkedin \<Longrightarrow> filler variant = (\<lambda>c. c \<noteq> NL)"
  by (simp add: filler_def fun_eq_iff)

lemma filler_linkedin: "filler share_to_linkedin = isspace"
  by (simp add: filler_def fun_eq_iff)

lemma has_share_tag_line:
  assumes "variant \<noteq> share_to_linkedin"
  shows "has_share_tag variant s \<longleftrightarrow> marker_on_tag_line s"
  unfolding has_share_tag_iff marker_on_tag_line_def filler_line [OF assms] list_all_no_NL
  by (rule refl)

lemma has_share_tag_linkedin:
  "has_share_tag share_to_linkedin s \<longleftrightarrow> marker_follows_colon s"
  by (simp only: has_share_tag_iff marker_follows_colon_def filler_linkedin)

lemma match_heading_take: "match_heading s \<noteq> None \<Longrightarrow> take 3 s = ascii ''## ''"
  by (simp add: match_heading_def Let_def split: if_splits)

lemma parse_entry_eq:
  "parse_entry variant source_file source_date raw =
     (if has_share_tag variant (strip raw) \<and> extractable raw
      then Some (entry_of source_file source_date raw) else None)"
  using match_heading_take [of "strip raw"]
  by (auto simp: parse_entry_def extractable_def entry_of_def Let_def split: option.splits)

lemma map_filter_parse_entry:
  "List.map_filter (parse_entry variant source_file source_date) raws =
     map (entry_of source_file source_date)
       (filter (\<lambda>raw. has_share_tag variant (strip raw) \<and> extractable raw) raws)"
  by (induction raws) (simp_all add: parse_entry_eq)

lemma parse_entries_eq:
  "parse_entries_from_file variant source_file source_date text =
     map (entry_of source_file source_date)
       (filter (\<lambda>raw. has_share_tag variant (strip raw) \<and> extractable raw) (entries_raw text))"
  by (simp only: parse_entries_from_file_def map_filter_parse_entry)

section \<open>Tagged segments\<close>

text \<open>
  Claim C8, as amended. In share\_pipeline.py and share\_to\_social.py the entries of a
  document are those of its pieces, in the order of the document, in which the marker
  \<^verbatim>\<open>#Share\<close> stands behind the label and a colon on the same line, the first line holds a
  heading text behind \<^verbatim>\<open>"## "\<close>, and the computed body is not empty; every other piece gives
  no entry. This covers the two metadata formats alike: fields before and behind the tag
  field on its line play no role. In share\_to\_linkedin.py such a piece gives its entry
  when the marker follows the colon at once or behind white space.
\<close>

theorem tagged_segments_extracted:
  "(variant \<noteq> share_to_linkedin \<longrightarrow>
      parse_entries_from_file variant source_file source_date text =
        map (entry_of source_file source_date)
          (filter (\<lambda>raw. marker_on_tag_line (strip raw) \<and> extractable raw) (entries_raw text))) \<and>
   (\<forall>raw \<in> set (entries_raw text).
      marker_follows_colon (strip raw) \<and> extractable raw \<longrightarrow>
        entry_of source_file source_date raw
          \<in> set (parse_entries_from_file share_to_linkedin source_file source_date text))"
proof (intro conjI impI ballI)
  assume v: "variant \<noteq> share_to_linkedin"
  show "parse_entries_from_file variant source_file source_date text =
        map (entry_of source_file source_date)
          (filter (\<lambda>raw. marker_on_tag_line (strip raw) \<and> extractable raw) (entries_raw text))"
    by (simp only: parse_entries_eq has_share_tag_line [OF v])
next
  fix raw
  assume "raw \<in> set (entries_raw text)"
    and "marker_follows_colon (strip raw) \<and> extractable raw"
  then show "entry_of source_file source_date raw
      \<in> set (parse_entries_from_file share_to_linkedin source_file source_date text)"
    by (simp add: parse_entries_eq has_share_tag_linkedin)
qed

section \<open>The extractor at sample inputs\<close>

lemmas extract_eval = parse_entries_from_file_def entries_raw_def skip_front_matter_def
  parse_entry_def body_of_def has_share_tag_def filler_def re_lit_def tag_label_def
  is_colon_def share_marker_def tag_field_def share_entry_def str_eval

lemma sample_note_pieces:
  "entries_raw sample_note =
     [ascii ''# Notes'',
      ascii ''## A'' @ [NL] @ ascii ''**a**: x | '' @ tag_field ''#Share'' @ ascii '' | **b**: y''
        @ [NL] @ ascii ''---'' @ [NL] @ ascii ''first'',
      ascii ''## B'' @ [NL] @ tag_field ''#Work'' @ [NL] @ ascii ''---'' @ [NL] @ ascii ''second'',
      multi_line_segment]"
  by (simp add: sample_note_def pipe_segment_def untagged_segment_def multi_line_segment_def
      entries_raw_def skip_front_matter_def tag_field_def tag_label_def str_eval)

lemma sample_note_entries:
  "parse_entries_from_file variant (ascii ''2024-05-01.md'') (ascii ''2024-05-01'') sample_note =
     [share_entry ''A'' ''first'', share_entry ''C'' ''third'']"
  by (cases variant)
    (simp_all add: sample_note_def pipe_segment_def untagged_segment_def multi_line_segment_def
      extract_eval)

lemma multi_line_segment_ok:
  "has_share_tag share_to_linkedin (strip multi_line_segment) \<and> extractable multi_line_segment \<and>
   entry_of (ascii ''2024-05-01.md'') (ascii ''2024-05-01'') multi_line_segment =
     share_entry ''C'' ''third''"
  by (simp add: multi_line_segment_def extractable_def entry_of_def extract_eval)

theorem tagged_segments_extracted_witness:
  "parse_entries_from_file share_pipeline (ascii ''2024-05-01.md'') (ascii ''2024-05-01'')
       sample_note = [share_entry ''A'' ''first'', share_entry ''C'' ''third''] \<and>
   map (entry_of (ascii ''2024-05-01.md'') (ascii ''2024-05-01''))
     (filter (\<lambda>raw. marker_on_tag_line (strip raw) \<and> extractable raw) (entries_raw sample_note)) =
     [share_entry ''A'' ''first'', share_entry ''C'' ''third''] \<and>
   multi_line_segment \<in> set (entries_raw sample_note) \<and>
   marker_follows_colon (strip multi_line_segment) \<and> extractable multi_line_segment \<and>
   share_entry ''C'' ''third''
     \<in> set (parse_entries_from_file share_to_linkedin (ascii ''2024-05-01.md'')
          (ascii ''2024-05-01'') sample_note)"
proof -
  note t = tagged_segments_extracted [of share_pipeline "ascii ''2024-05-01.md''"
      "ascii ''2024-05-01''" sample_note]
  have v: "share_pipeline \<noteq> share_to_linkedin" by simp
  from t v have a: "parse_entries_from_file share_pipeline (ascii ''2024-05-01.md'')
        (ascii ''2024-05-01'') sample_note =
      map (entry_of (ascii ''2024-05-01.md'') (ascii ''2024-05-01''))
        (filter (\<lambda>raw. marker_on_tag_line (strip raw) \<and> extractable raw)
           (entries_raw sample_note))"
    by blast
  have m: "multi_line_segment \<in> set (entries_raw sample_note)"
    by (simp only: sample_note_pieces) simp
  have f: "marker_follows_colon (strip multi_line_segment)"
    using multi_line_segment_ok by (simp only: has_share_tag_linkedin)
  from t m f multi_line_segment_ok
  have b: "entry_of (ascii ''2024-05-01.md'') (ascii ''2024-05-01'') multi_line_segment
      \<in> set (parse_entries_from_file share_to_linkedin (ascii ''2024-05-01.md'')
          (ascii ''2024-05-01'') sample_note)"
    by blast
  from a b m f multi_line_segment_ok sample_note_entries [of share_pipeline]
  show ?thesis by simp
qed

text \<open>
  Claim C8 as stated fails. A piece whose tag field holds the marker and which ends with
  the line of that field has an empty body and gives no entry, in each of the three
  pipelines; so does a tagged piece with a body whose heading line holds no text. A piece
  whose tag field lacks the marker gives an entry in share\_pipeline.py when a later field
  of the same line holds it. With another tag in front of the marker the piece gives an
  entry in share\_pipeline.py and none in share\_to\_linkedin.py.
\<close>

theorem tagged_segment_not_extracted:
  "has_share_tag share_pipeline (ascii ''## T'' @ [NL] @ tag_field ''#Share'') \<and>
   parse_entries_from_file share_pipeline (ascii ''f.md'') (ascii ''2024-05-01'')
     (ascii ''## T'' @ [NL] @ tag_field ''#Share'') = [] \<and>
   parse_entries_from_file share_to_linkedin (ascii ''f.md'') (ascii ''2024-05-01'')
     (ascii ''## T'' @ [NL] @ tag_field ''#Share'') = [] \<and>
   parse_entries_from_file share_to_social (ascii ''f.md'') (ascii ''2024-05-01'')
     (ascii ''## T'' @ [NL] @ tag_field ''#Share'') = [] \<and>
   parse_entries_from_file share_pipeline (ascii ''f.md'') (ascii ''2024-05-01'')
     (ascii ''## '' @ [NL] @ tag_field ''#Share'' @ [NL] @ ascii ''---'' @ [NL] @ ascii ''body'')
     = [] \<and>
   parse_entries_from_file share_pipeline (ascii ''f.md'') (ascii ''2024-05-01'')
     (ascii ''## T'' @ [NL] @ tag_field ''#Work'' @ ascii '' | **b**: #Share'' @ [NL] @
        ascii ''---'' @ [NL] @ ascii ''body'') =
     [\<lparr>se_title = ascii ''T'', se_body = ascii ''body'', se_source_file = ascii ''f.md'',
       se_source_date = ascii ''2024-05-01''\<rparr>] \<and>
   parse_entries_from_file share_pipeline (ascii ''f.md'') (ascii ''2024-05-01'')
     (ascii ''## T'' @ [NL] @ tag_field ''#Work #Share'' @ [NL] @
        ascii ''---'' @ [NL] @ ascii ''body'') =
     [\<lparr>se_title = ascii ''T'', se_body = ascii ''body'', se_source_file = ascii ''f.md'',
       se_source_date = ascii ''2024-05-01''\<rparr>] \<and>
   parse_entries_from_file share_to_linkedin (ascii ''f.md'') (ascii ''2024-05-01'')
     (ascii ''## T'' @ [NL] @ tag_field ''#Work #Share'' @ [NL] @
        ascii ''---'' @ [NL] @ ascii ''body'') = []"
  by (simp add: extract_eval)

end
